theory Spec2Isabelle
  imports Main "HOL-Library.Multiset" "HOL-Library.Sublist"
begin

section \<open>JavaScript values\<close>

text \<open>
  The bridge handles plugin names, messages, contexts, handlers, middleware, event names and
  listeners as untyped JavaScript values, and checks them with \<^verbatim>\<open>typeof\<close> and \<^verbatim>\<open>!\<close>.
  Objects and functions have identity: an object is a reference together with the
  properties it was created with, a function is a reference only (what it does when it is
  called is given by the environment below). Objects made by the bridge itself (event
  payloads, the default context, the error substitute of a broadcast) get their reference
  from a counter in the state; objects of the embedding application live in a space of
  their own. With that, HOL equality on values is the SameValueZero comparison that
  \<^verbatim>\<open>Map\<close> and \<^verbatim>\<open>Set\<close> use. Numbers are the integers and \<^verbatim>\<open>NaN\<close>: the bridge only tests
  a number for its type and its truth value. Objects are not mutated in the model.
\<close>

datatype ref = AppRef nat | BridgeRef nat

type_synonym fid = nat

datatype val =
    VUndefined
  | VNull
  | VBool bool
  | VNum int
  | VNaN
  | VStr string
  | VObj ref "(string \<times> val) list"
  | VFun fid

datatype jstype = TUndefined | TObject | TBoolean | TNumber | TString | TFunction

fun typeof :: "val \<Rightarrow> jstype" where
  "typeof VUndefined = TUndefined"
| "typeof VNull = TObject"
| "typeof (VBool b) = TBoolean"
| "typeof (VNum n) = TNumber"
| "typeof VNaN = TNumber"
| "typeof (VStr s) = TString"
| "typeof (VObj r fs) = TObject"
| "typeof (VFun f) = TFunction"

text \<open>\<open>falsy v\<close> is the JavaScript expression \<^verbatim>\<open>!v\<close>.\<close>

fun falsy :: "val \<Rightarrow> bool" where
  "falsy VUndefined = True"
| "falsy VNull = True"
| "falsy (VBool b) = (\<not> b)"
| "falsy (VNum n) = (n = 0)"
| "falsy VNaN = True"
| "falsy (VStr s) = (s = [])"
| "falsy (VObj r fs) = False"
| "falsy (VFun f) = False"

section \<open>Failures\<close>

text \<open>
  Every \<^verbatim>\<open>throw\<close> and every rejected promise is a value of type \<open>failure\<close>. The
  bridge raises \<^verbatim>\<open>new Error(text)\<close> at five places; \<open>BridgeError\<close> keeps the text
  and tags the place with the name the specification gives it. \<open>TypeError\<close> is what the
  engine raises when a non-function is called or a property of \<^verbatim>\<open>null\<close> or
  \<^verbatim>\<open>undefined\<close> is read. \<open>Thrown\<close> is any value a handler, middleware or listener
  throws (or rejects with).
\<close>

datatype error_kind = InvalidArgument | DuplicatePlugin | UnknownPlugin

datatype failure =
    BridgeError error_kind string
  | TypeError string
  | Thrown val

type_synonym outcome = "failure + val"

text \<open>Reading a property of a value: \<^verbatim>\<open>v[key]\<close>.\<close>

fun get_prop :: "val \<Rightarrow> string \<Rightarrow> outcome" where
  "get_prop VUndefined key = Inl (TypeError (''Cannot read properties of undefined (reading '' @ key @ '')''))"
| "get_prop VNull key = Inl (TypeError (''Cannot read properties of null (reading '' @ key @ '')''))"
| "get_prop (VObj r fs) key = Inr (case map_of fs key of Some v \<Rightarrow> v | None \<Rightarrow> VUndefined)"
| "get_prop v key = Inr VUndefined"

text \<open>The expression \<^verbatim>\<open>error.message\<close> on a caught failure.\<close>

fun error_message :: "failure \<Rightarrow> outcome" where
  "error_message (BridgeError k text) = Inr (VStr text)"
| "error_message (TypeError text) = Inr (VStr text)"
| "error_message (Thrown v) = get_prop v ''message''"

section \<open>Callables and the environment\<close>

text \<open>
  What a middleware does when it is called with \<^verbatim>\<open>(message, context, next)\<close>: it reads
  and writes the state of the application, calls \<^verbatim>\<open>next\<close> with any arguments any number
  of times, continues with the outcome of each of these calls, and finally returns or throws.
\<close>

datatype 'u prog =
    Done outcome
  | CallNext "val list" "outcome \<Rightarrow> 'u prog"
  | Read "'u \<Rightarrow> 'u prog"
  | Write "'u \<Rightarrow> 'u" "'u prog"

text \<open>
  The environment gives the behaviour of every function value: called as a handler with
  \<^verbatim>\<open>(message, context)\<close>, as a middleware with \<^verbatim>\<open>(message, context, next)\<close>, as a listener
  with \<^verbatim>\<open>(payload)\<close>. Handlers and listeners act on the state \<open>'u\<close> of the application.
  \<open>render\<close> is the string conversion of a template literal for values that are not strings.

  What the model takes for granted about the code that the bridge calls:
  \<^item> a handler, middleware or listener returns or throws: it does not run forever;
  \<^item> it acts on the application's state and does not write to the fields of the bridge;
    of the methods of the bridge it calls none but \<^verbatim>\<open>on\<close> and \<^verbatim>\<open>off\<close>, and these from a
    listener: \<open>emit_live\<close> is the emission with listeners that call them, \<open>emit\<close> the
    emission with listeners that do not;
  \<^item> the pipeline of a \<^verbatim>\<open>send\<close> has settled when the call of \<^verbatim>\<open>pipeline()\<close> returns its
    promise, as it has with synchronous handlers and middleware, so a rejected promise and
    a \<^verbatim>\<open>throw\<close> are the same failure; what follows an \<^verbatim>\<open>await\<close> runs later, in the order
    of the job queue (see \<open>broadcast\<close>); a listener is synchronous, as \<^verbatim>\<open>emit\<close> does not
    await it;
  \<^item> \<^verbatim>\<open>logger.error\<close> records its arguments and returns.
\<close>

record 'u env =
  handler_of :: "fid \<Rightarrow> val \<Rightarrow> val \<Rightarrow> 'u \<Rightarrow> outcome \<times> 'u"
  middleware_of :: "fid \<Rightarrow> val \<Rightarrow> val \<Rightarrow> 'u prog"
  listener_of :: "fid \<Rightarrow> val \<Rightarrow> 'u \<Rightarrow> outcome \<times> 'u"
  render :: "val \<Rightarrow> string"

definition template :: "'u env \<Rightarrow> val \<Rightarrow> string" where
  "template env v = (case v of VStr s \<Rightarrow> s | _ \<Rightarrow> render env v)"

section \<open>The bridge and its state\<close>

text \<open>
  What can be observed of a run: every call of a handler, middleware or listener (with the
  function called and its arguments), every call of \<^verbatim>\<open>emit\<close> (with the event and the
  payload), and every \<^verbatim>\<open>logger.error\<close> (with the text and the failure). The model
  records each of them in the trace at the place where the code makes the call.
\<close>

datatype event =
    HandlerCalled val val val
  | MiddlewareCalled val val val
  | ListenerCalled val val
  | Emitted val val
  | Logged string failure

text \<open>
  \<^verbatim>\<open>plugins\<close> is a \<^verbatim>\<open>Map\<close>, \<^verbatim>\<open>middlewares\<close> an array, \<^verbatim>\<open>listeners\<close> a \<^verbatim>\<open>Map\<close> of
  \<^verbatim>\<open>Set\<close>s; maps and sets are kept in insertion order, which is their iteration order.
  \<open>created\<close> counts the objects the bridge has made, \<open>trace\<close> is the record of events
  (with the logger's output), \<open>user\<close> the state of the application.
\<close>

record 'u state =
  plugins :: "(val \<times> val) list"
  middlewares :: "val list"
  listeners :: "(val \<times> val list) list"
  created :: nat
  trace :: "event list"
  user :: 'u

definition constructor :: "'u \<Rightarrow> 'u state" where
  "constructor u = \<lparr>plugins = [], middlewares = [], listeners = [], created = 0, trace = [], user = u\<rparr>"

subsection \<open>Map and Set\<close>

definition map_has :: "('k \<times> 'v) list \<Rightarrow> 'k \<Rightarrow> bool" where
  "map_has m k = (map_of m k \<noteq> None)"

definition map_get :: "('k \<times> 'v) list \<Rightarrow> 'k \<Rightarrow> 'v option" where
  "map_get m k = map_of m k"

fun map_set :: "('k \<times> 'v) list \<Rightarrow> 'k \<Rightarrow> 'v \<Rightarrow> ('k \<times> 'v) list" where
  "map_set [] k v = [(k, v)]"
| "map_set ((k', v') # m) k v = (if k' = k then (k, v) # m else (k', v') # map_set m k v)"

definition map_delete :: "('k \<times> 'v) list \<Rightarrow> 'k \<Rightarrow> bool \<times> ('k \<times> 'v) list" where
  "map_delete m k = (map_has m k, filter (\<lambda>p. fst p \<noteq> k) m)"

definition map_keys :: "('k \<times> 'v) list \<Rightarrow> 'k list" where
  "map_keys m = map fst m"

definition set_add :: "'a list \<Rightarrow> 'a \<Rightarrow> 'a list" where
  "set_add xs x = (if x \<in> set xs then xs else xs @ [x])"

definition set_delete :: "'a list \<Rightarrow> 'a \<Rightarrow> 'a list" where
  "set_delete xs x = removeAll x xs"

subsection \<open>Events, objects, calls\<close>

definition record_event :: "event \<Rightarrow> 'u state \<Rightarrow> 'u state" where
  "record_event e st = st\<lparr>trace := trace st @ [e]\<rparr>"

text \<open>An object literal \<^verbatim>\<open>{ ... }\<close> evaluated by the bridge.\<close>

definition new_object :: "(string \<times> val) list \<Rightarrow> 'u state \<Rightarrow> val \<times> 'u state" where
  "new_object fs st = (VObj (BridgeRef (created st)) fs, st\<lparr>created := Suc (created st)\<rparr>)"

text \<open>The default parameter \<^verbatim>\<open>context = {}\<close>.\<close>

definition default_context :: "val \<Rightarrow> 'u state \<Rightarrow> val \<times> 'u state" where
  "default_context context st = (if context = VUndefined then new_object [] st else (context, st))"

definition call_listener :: "'u env \<Rightarrow> val \<Rightarrow> val \<Rightarrow> 'u state \<Rightarrow> outcome \<times> 'u state" where
  "call_listener env callback payload st =
     (case callback of
        VFun f \<Rightarrow>
          (let st1 = record_event (ListenerCalled callback payload) st;
               (r, u) = listener_of env f payload (user st1)
           in (r, st1\<lparr>user := u\<rparr>))
      | _ \<Rightarrow> (Inl (TypeError ''callback is not a function''), st))"

definition call_handler :: "'u env \<Rightarrow> val \<Rightarrow> val \<Rightarrow> val \<Rightarrow> 'u state \<Rightarrow> outcome \<times> 'u state" where
  "call_handler env handler message context st =
     (case handler of
        VFun f \<Rightarrow>
          (let st1 = record_event (HandlerCalled handler message context) st;
               (r, u) = handler_of env f message context (user st1)
           in (r, st1\<lparr>user := u\<rparr>))
      | _ \<Rightarrow> (Inl (TypeError ''handler is not a function''), st))"

type_synonym 'u stage = "val list \<Rightarrow> 'u state \<Rightarrow> outcome \<times> 'u state"

primrec run_middleware :: "'u prog \<Rightarrow> 'u stage \<Rightarrow> 'u state \<Rightarrow> outcome \<times> 'u state" where
  "run_middleware (Done r) nxt st = (r, st)"
| "run_middleware (CallNext args k) nxt st =
     (case nxt args st of (r, st1) \<Rightarrow> run_middleware (k r) nxt st1)"
| "run_middleware (Read f) nxt st = run_middleware (f (user st)) nxt st"
| "run_middleware (Write g p) nxt st = run_middleware p nxt (st\<lparr>user := g (user st)\<rparr>)"

definition call_middleware ::
  "'u env \<Rightarrow> val \<Rightarrow> val \<Rightarrow> val \<Rightarrow> 'u stage \<Rightarrow> 'u state \<Rightarrow> outcome \<times> 'u state" where
  "call_middleware env middleware message context nxt st =
     (case middleware of
        VFun f \<Rightarrow>
          run_middleware (middleware_of env f message context) nxt
            (record_event (MiddlewareCalled middleware message context) st)
      | _ \<Rightarrow> (Inl (TypeError ''middleware is not a function''), st))"

section \<open>The methods of PluginBridge\<close>

text \<open>The texts given to \<^verbatim>\<open>logger.error\<close>; \<open>CHR 0x22\<close> is the double quote.\<close>

definition listener_error_text :: "'u env \<Rightarrow> val \<Rightarrow> string" where
  "listener_error_text env event = ''Listener error for event '' @ [CHR 0x22] @ template env event @ [CHR 0x22] @ '':''"

definition broadcast_error_text :: "'u env \<Rightarrow> val \<Rightarrow> string" where
  "broadcast_error_text env name = ''Broadcast error for plugin '' @ [CHR 0x22] @ template env name @ [CHR 0x22] @ '':''"

subsection \<open>emit\<close>

text \<open>
  The emission with listeners that call neither \<^verbatim>\<open>on\<close> nor \<^verbatim>\<open>off\<close>: the \<^verbatim>\<open>Set\<close> of the
  event stays as it is while it is iterated. The emission with listeners that change the
  \<^verbatim>\<open>Set\<close>s is \<open>emit_live\<close>, after \<^verbatim>\<open>on\<close> and \<^verbatim>\<open>off\<close>.
\<close>

fun notify :: "'u env \<Rightarrow> val \<Rightarrow> val list \<Rightarrow> val \<Rightarrow> 'u state \<Rightarrow> 'u state" where
  "notify env event [] payload st = st"
| "notify env event (callback # rest) payload st =
     (case call_listener env callback payload st of
        (Inr r, st1) \<Rightarrow> notify env event rest payload st1
      | (Inl error, st1) \<Rightarrow>
          notify env event rest payload
            (record_event (Logged (listener_error_text env event) error) st1))"

definition emit :: "'u env \<Rightarrow> val \<Rightarrow> val \<Rightarrow> 'u state \<Rightarrow> 'u state" where
  "emit env event payload st =
     (let st0 = record_event (Emitted event payload) st
      in if \<not> map_has (listeners st0) event then st0
         else case map_get (listeners st0) event of
                Some callbacks \<Rightarrow> notify env event callbacks payload st0
              | None \<Rightarrow> st0)"

subsection \<open>registerPlugin, unregisterPlugin, use\<close>

definition registerPlugin :: "'u env \<Rightarrow> val \<Rightarrow> val \<Rightarrow> 'u state \<Rightarrow> (failure + unit) \<times> 'u state" where
  "registerPlugin env name handler st =
     (if falsy name \<or> typeof name \<noteq> TString then
        (Inl (BridgeError InvalidArgument ''Plugin name must be a non-empty string.''), st)
      else if typeof handler \<noteq> TFunction then
        (Inl (BridgeError InvalidArgument ''Plugin handler must be a function.''), st)
      else if map_has (plugins st) name then
        (Inl (BridgeError DuplicatePlugin
               (''Plugin '' @ [CHR 0x22] @ template env name @ [CHR 0x22] @ '' is already registered.'')), st)
      else
        (let st1 = st\<lparr>plugins := map_set (plugins st) name handler\<rparr>;
             (payload, st2) = new_object [(''name'', name)] st1
         in (Inr (), emit env (VStr ''plugin:registered'') payload st2)))"

definition unregisterPlugin :: "'u env \<Rightarrow> val \<Rightarrow> 'u state \<Rightarrow> 'u state" where
  "unregisterPlugin env name st =
     (let (deleted, m) = map_delete (plugins st) name;
          st1 = st\<lparr>plugins := m\<rparr>
      in if deleted then
           (let (payload, st2) = new_object [(''name'', name)] st1
            in emit env (VStr ''plugin:unregistered'') payload st2)
         else st1)"

definition use :: "val \<Rightarrow> 'u state \<Rightarrow> (failure + unit) \<times> 'u state" where
  "use middleware st =
     (if typeof middleware \<noteq> TFunction then
        (Inl (BridgeError InvalidArgument ''Middleware must be a function.''), st)
      else (Inr (), st\<lparr>middlewares := middlewares st @ [middleware]\<rparr>))"

subsection \<open>send\<close>

text \<open>
  \<^verbatim>\<open>reduceRight\<close> folds the array from its last element to its first, so the first
  middleware is the outermost wrapper. Each wrapper is \<^verbatim>\<open>async () => middleware(message,
  context, next)\<close>: it takes no parameters, so whatever it is called with is dropped, and it
  closes over the \<^verbatim>\<open>message\<close> and \<^verbatim>\<open>context\<close> of the call of \<^verbatim>\<open>send\<close>. \<open>send\<close> is
  one call of the method awaited to its end, with nothing else running in between: the
  pipeline, then the emission.
\<close>

definition terminal :: "'u env \<Rightarrow> val \<Rightarrow> val \<Rightarrow> val \<Rightarrow> 'u stage" where
  "terminal env handler message context = (\<lambda>args. call_handler env handler message context)"

definition compose :: "'u env \<Rightarrow> val list \<Rightarrow> val \<Rightarrow> val \<Rightarrow> 'u stage \<Rightarrow> 'u stage" where
  "compose env ms message context final =
     foldr (\<lambda>middleware nxt. (\<lambda>args. call_middleware env middleware message context nxt)) ms final"

definition send :: "'u env \<Rightarrow> val \<Rightarrow> val \<Rightarrow> val \<Rightarrow> 'u state \<Rightarrow> outcome \<times> 'u state" where
  "send env name message context0 st0 =
     (let (context, st) = default_context context0 st0
      in if \<not> map_has (plugins st) name then
           (Inl (BridgeError UnknownPlugin
                  (''Plugin '' @ [CHR 0x22] @ template env name @ [CHR 0x22] @ '' is not registered.'')), st)
         else
           (let handler = (case map_get (plugins st) name of Some h \<Rightarrow> h | None \<Rightarrow> VUndefined);
                pipeline = compose env (middlewares st) message context (terminal env handler message context)
            in case pipeline [] st of
                 (Inl error, st1) \<Rightarrow> (Inl error, st1)
               | (Inr response, st1) \<Rightarrow>
                   (let (payload, st2) =
                          new_object [(''name'', name), (''message'', message), (''response'', response)] st1
                    in (Inr response, emit env (VStr ''plugin:message'') payload st2))))"

subsection \<open>broadcast\<close>

text \<open>
  \<^verbatim>\<open>map\<close> calls \<^verbatim>\<open>send\<close> for every name of the snapshot before anything is awaited. A
  call of \<^verbatim>\<open>send\<close> runs until its \<^verbatim>\<open>await pipeline()\<close>: \<open>send_start\<close> is that part, with
  the outcome of the pipeline. What follows the \<^verbatim>\<open>await\<close>, \<open>send_resume\<close>, runs later, from
  the job queue: the emission and the return, or the failure thrown on. So in a broadcast
  every pipeline has run before the first \<^verbatim>\<open>plugin:message\<close> is emitted. The
  continuations run in the order in which the sends were started, and the \<^verbatim>\<open>.catch\<close>
  handlers, which are reactions to the promises that the continuations settle, run after
  them, in the same order. (This is the order of the jobs when the pipelines of all targets
  settle after the same number of steps, as they do when handlers and middleware are
  synchronous.)
\<close>

definition send_start :: "'u env \<Rightarrow> val \<Rightarrow> val \<Rightarrow> val \<Rightarrow> 'u state \<Rightarrow> outcome \<times> 'u state" where
  "send_start env name message context0 st0 =
     (let (context, st) = default_context context0 st0
      in if \<not> map_has (plugins st) name then
           (Inl (BridgeError UnknownPlugin
                  (''Plugin '' @ [CHR 0x22] @ template env name @ [CHR 0x22] @ '' is not registered.'')), st)
         else
           (let handler = (case map_get (plugins st) name of Some h \<Rightarrow> h | None \<Rightarrow> VUndefined);
                pipeline = compose env (middlewares st) message context (terminal env handler message context)
            in pipeline [] st))"

definition send_resume :: "'u env \<Rightarrow> val \<Rightarrow> val \<Rightarrow> outcome \<Rightarrow> 'u state \<Rightarrow> outcome \<times> 'u state" where
  "send_resume env name message settled st1 =
     (case settled of
        Inl error \<Rightarrow> (Inl error, st1)
      | Inr response \<Rightarrow>
          (let (payload, st2) =
                 new_object [(''name'', name), (''message'', message), (''response'', response)] st1
           in (Inr response, emit env (VStr ''plugin:message'') payload st2)))"

text \<open>
  The \<^verbatim>\<open>.catch\<close> handler of a target, as a reaction to the promise of its \<^verbatim>\<open>send\<close>: a
  response passes through; a failure is logged and then \<^verbatim>\<open>{ error: error.message }\<close> is
  evaluated, which can fail in its turn.
\<close>

definition catch_failure :: "'u env \<Rightarrow> val \<Rightarrow> outcome \<Rightarrow> 'u state \<Rightarrow> outcome \<times> 'u state" where
  "catch_failure env name settled st1 =
     (case settled of
        Inr response \<Rightarrow> (Inr response, st1)
      | Inl error \<Rightarrow>
          (let st2 = record_event (Logged (broadcast_error_text env name) error) st1
           in case error_message error of
                Inl e \<Rightarrow> (Inl e, st2)
              | Inr text \<Rightarrow> (case new_object [(''error'', text)] st2 of
                              (obj, st3) \<Rightarrow> (Inr obj, st3))))"

fun starts :: "'u env \<Rightarrow> val list \<Rightarrow> val \<Rightarrow> val \<Rightarrow> 'u state \<Rightarrow> outcome list \<times> 'u state" where
  "starts env [] message context st = ([], st)"
| "starts env (name # names) message context st =
     (case send_start env name message context st of
        (r, st1) \<Rightarrow> (case starts env names message context st1 of
                       (rs, st2) \<Rightarrow> (r # rs, st2)))"

fun resumes :: "'u env \<Rightarrow> val list \<Rightarrow> val \<Rightarrow> outcome list \<Rightarrow> 'u state \<Rightarrow> outcome list \<times> 'u state" where
  "resumes env (name # names) message (settled # rest) st =
     (case send_resume env name message settled st of
        (r, st1) \<Rightarrow> (case resumes env names message rest st1 of
                       (rs, st2) \<Rightarrow> (r # rs, st2)))"
| "resumes env names message rest st = ([], st)"

fun catches :: "'u env \<Rightarrow> val list \<Rightarrow> outcome list \<Rightarrow> 'u state \<Rightarrow> outcome list \<times> 'u state" where
  "catches env (name # names) (settled # rest) st =
     (case catch_failure env name settled st of
        (r, st1) \<Rightarrow> (case catches env names rest st1 of
                       (rs, st2) \<Rightarrow> (r # rs, st2)))"
| "catches env names rest st = ([], st)"

text \<open>
  \<^verbatim>\<open>Promise.all\<close> resolves with the array of the values when every task resolved, and
  rejects with the first rejection otherwise.
\<close>

fun promise_all :: "outcome list \<Rightarrow> failure + val list" where
  "promise_all [] = Inr []"
| "promise_all (Inl e # rs) = Inl e"
| "promise_all (Inr v # rs) = (case promise_all rs of Inl e \<Rightarrow> Inl e | Inr vs \<Rightarrow> Inr (v # vs))"

definition broadcast :: "'u env \<Rightarrow> val \<Rightarrow> val \<Rightarrow> 'u state \<Rightarrow> (failure + val list) \<times> 'u state" where
  "broadcast env message context0 st0 =
     (let (context, st) = default_context context0 st0;
          names = map_keys (plugins st)
      in case starts env names message context st of
           (started, st1) \<Rightarrow>
             (case resumes env names message started st1 of
                (settled, st2) \<Rightarrow>
                  (case catches env names settled st2 of
                     (tasks, st3) \<Rightarrow> (promise_all tasks, st3))))"

subsection \<open>on, off\<close>

definition on :: "val \<Rightarrow> val \<Rightarrow> 'u state \<Rightarrow> 'u state" where
  "on event callback st =
     (let ls = (if \<not> map_has (listeners st) event then map_set (listeners st) event [] else listeners st)
      in st\<lparr>listeners :=
              (case map_get ls event of
                 Some callbacks \<Rightarrow> map_set ls event (set_add callbacks callback)
               | None \<Rightarrow> ls)\<rparr>)"

definition off :: "val \<Rightarrow> val \<Rightarrow> 'u state \<Rightarrow> 'u state" where
  "off event callback st =
     (if map_has (listeners st) event then
        (case map_get (listeners st) event of
           Some callbacks \<Rightarrow> st\<lparr>listeners := map_set (listeners st) event (set_delete callbacks callback)\<rparr>
         | None \<Rightarrow> st)
      else st)"

subsection \<open>emit, with listeners that subscribe and unsubscribe\<close>

text \<open>
  \<^verbatim>\<open>emit\<close> iterates the \<^verbatim>\<open>Set\<close> of the event itself, not a copy, and a listener can call
  \<^verbatim>\<open>on\<close> and \<^verbatim>\<open>off\<close> of the bridge while it runs. The iterator of a \<^verbatim>\<open>Set\<close> visits a
  value that is added before the iteration has ended, and does not visit a value that
  is deleted before its turn; a value that is deleted and added again is a new entry at
  the end. \<open>subscriptions\<close> gives the calls of \<^verbatim>\<open>on\<close> and \<^verbatim>\<open>off\<close> that a listener makes when
  it is called; \<open>iterate_op\<close> does one of them, on the \<^verbatim>\<open>Set\<close>s and on the values that the
  iterator has still to visit. A listener can subscribe a listener that subscribes another
  one, and so on without end: the loop takes fuel, one unit for each call of a listener,
  and \<open>None\<close> is the emission that has not ended when the fuel is used up.

  \<open>notify\<close> and \<open>emit\<close> above are this loop for listeners that make no such call
  (\<open>emit_live_quiet\<close> below).
\<close>

definition subscribed :: "'u state \<Rightarrow> val \<Rightarrow> val list" where
  "subscribed st event = (case map_get (listeners st) event of Some callbacks \<Rightarrow> callbacks | None \<Rightarrow> [])"

datatype sub_op = Subscribe val val | Unsubscribe val val

type_synonym 'u subscriptions = "fid \<Rightarrow> val \<Rightarrow> 'u \<Rightarrow> sub_op list"

fun iterate_op :: "val \<Rightarrow> sub_op \<Rightarrow> val list \<times> 'u state \<Rightarrow> val list \<times> 'u state" where
  "iterate_op event (Subscribe ev callback) (rest, st) =
     (if ev = event \<and> callback \<notin> set (subscribed st event) then rest @ [callback] else rest,
      on ev callback st)"
| "iterate_op event (Unsubscribe ev callback) (rest, st) =
     (if ev = event then removeAll callback rest else rest,
      off ev callback st)"

definition call_listener_live ::
  "'u env \<Rightarrow> 'u subscriptions \<Rightarrow> val \<Rightarrow> val \<Rightarrow> val list \<Rightarrow> val \<Rightarrow> 'u state
     \<Rightarrow> outcome \<times> val list \<times> 'u state" where
  "call_listener_live env subs event callback rest payload st =
     (case callback of
        VFun f \<Rightarrow>
          (let st1 = record_event (ListenerCalled callback payload) st;
               (r, u) = listener_of env f payload (user st1);
               (rest1, st2) = fold (iterate_op event) (subs f payload (user st1)) (rest, st1)
           in (r, rest1, st2\<lparr>user := u\<rparr>))
      | _ \<Rightarrow> (Inl (TypeError ''callback is not a function''), rest, st))"

fun notify_live ::
  "nat \<Rightarrow> 'u env \<Rightarrow> 'u subscriptions \<Rightarrow> val \<Rightarrow> val list \<Rightarrow> val \<Rightarrow> 'u state \<Rightarrow> 'u state option" where
  "notify_live fuel env subs event [] payload st = Some st"
| "notify_live 0 env subs event (callback # rest) payload st = None"
| "notify_live (Suc fuel) env subs event (callback # rest) payload st =
     (case call_listener_live env subs event callback rest payload st of
        (Inr r, rest1, st1) \<Rightarrow> notify_live fuel env subs event rest1 payload st1
      | (Inl error, rest1, st1) \<Rightarrow>
          notify_live fuel env subs event rest1 payload
            (record_event (Logged (listener_error_text env event) error) st1))"

definition emit_live ::
  "nat \<Rightarrow> 'u env \<Rightarrow> 'u subscriptions \<Rightarrow> val \<Rightarrow> val \<Rightarrow> 'u state \<Rightarrow> 'u state option" where
  "emit_live fuel env subs event payload st =
     (let st0 = record_event (Emitted event payload) st
      in if \<not> map_has (listeners st0) event then Some st0
         else case map_get (listeners st0) event of
                Some callbacks \<Rightarrow> notify_live fuel env subs event callbacks payload st0
              | None \<Rightarrow> Some st0)"

section \<open>Vocabulary of the properties\<close>

text \<open>
  The properties are stated over the trace. \<open>since st st'\<close> is what a step from \<open>st\<close> to
  \<open>st'\<close> added to it. The predicates on events select the calls of middleware and
  handlers (the stages of a pipeline), the calls of listeners, and the emissions of one
  event.
\<close>

definition since :: "'u state \<Rightarrow> 'u state \<Rightarrow> event list" where
  "since st st' = drop (length (trace st)) (trace st')"

definition is_stage_call :: "event \<Rightarrow> bool" where
  "is_stage_call e = (case e of HandlerCalled h m c \<Rightarrow> True | MiddlewareCalled f m c \<Rightarrow> True | _ \<Rightarrow> False)"

definition not_stage_call :: "event \<Rightarrow> bool" where
  "not_stage_call e = (\<not> is_stage_call e)"

definition is_listener_call :: "event \<Rightarrow> bool" where
  "is_listener_call e = (case e of ListenerCalled f p \<Rightarrow> True | _ \<Rightarrow> False)"

definition is_emitted :: "val \<Rightarrow> event \<Rightarrow> bool" where
  "is_emitted ev e = (case e of Emitted ev' p \<Rightarrow> ev' = ev | _ \<Rightarrow> False)"

definition is_notification :: "event \<Rightarrow> bool" where
  "is_notification e = (case e of ListenerCalled f p \<Rightarrow> True | Logged text err \<Rightarrow> True | _ \<Rightarrow> False)"

text \<open>
  \<open>extends P st st'\<close>: the step left the registry, the middleware chain, the listeners and
  the object counter alone and added only events that satisfy \<open>P\<close>; \<open>grows\<close> is its part
  about the trace.
\<close>

definition extends :: "(event \<Rightarrow> bool) \<Rightarrow> 'u state \<Rightarrow> 'u state \<Rightarrow> bool" where
  "extends P st st' =
     (plugins st' = plugins st \<and> middlewares st' = middlewares st \<and> listeners st' = listeners st \<and>
      created st' = created st \<and> (\<exists>es. trace st' = trace st @ es \<and> (\<forall>e \<in> set es. P e)))"

definition grows :: "(event \<Rightarrow> bool) \<Rightarrow> 'u state \<Rightarrow> 'u state \<Rightarrow> bool" where
  "grows P st st' = (\<exists>es. trace st' = trace st @ es \<and> list_all P es)"

text \<open>
  What a middleware does with its continuation: \<open>never_calls_next\<close> is the short circuit,
  \<open>calls_next_once\<close> the middleware that hands on once and then finishes (with whatever
  result).
\<close>

primrec never_calls_next :: "'u prog \<Rightarrow> bool" where
  "never_calls_next (Done r) = True"
| "never_calls_next (CallNext args k) = False"
| "never_calls_next (Read f) = (\<forall>u. never_calls_next (f u))"
| "never_calls_next (Write g p) = never_calls_next p"

primrec calls_next_once :: "'u prog \<Rightarrow> bool" where
  "calls_next_once (Done r) = False"
| "calls_next_once (CallNext args k) = (\<forall>r. never_calls_next (k r))"
| "calls_next_once (Read f) = (\<forall>u. calls_next_once (f u))"
| "calls_next_once (Write g p) = calls_next_once p"

definition passes_on :: "'u env \<Rightarrow> val \<Rightarrow> val \<Rightarrow> val \<Rightarrow> bool" where
  "passes_on env middleware message context =
     (case middleware of VFun f \<Rightarrow> calls_next_once (middleware_of env f message context) | _ \<Rightarrow> False)"

definition short_circuits :: "'u env \<Rightarrow> val \<Rightarrow> val \<Rightarrow> val \<Rightarrow> bool" where
  "short_circuits env middleware message context =
     (case middleware of VFun f \<Rightarrow> never_calls_next (middleware_of env f message context) | _ \<Rightarrow> False)"

text \<open>
  The handler that \<^verbatim>\<open>send\<close> finds under a name, the pipeline it builds, the events that are
  stage calls of that pipeline, and the stage calls of one target when every middleware
  hands on.
\<close>

definition the_handler :: "'u state \<Rightarrow> val \<Rightarrow> val" where
  "the_handler st name = (case map_get (plugins st) name of Some h \<Rightarrow> h | None \<Rightarrow> VUndefined)"

definition pipeline_of :: "'u env \<Rightarrow> 'u state \<Rightarrow> val \<Rightarrow> val \<Rightarrow> val \<Rightarrow> 'u stage" where
  "pipeline_of env st name message context =
     compose env (middlewares st) message context (terminal env (the_handler st name) message context)"

definition stage_of :: "val list \<Rightarrow> val \<Rightarrow> val \<Rightarrow> val \<Rightarrow> event \<Rightarrow> bool" where
  "stage_of ms handler message context e =
     (e = HandlerCalled handler message context \<or> e \<in> (\<lambda>m. MiddlewareCalled m message context) ` set ms)"

definition carries :: "val \<Rightarrow> val \<Rightarrow> event \<Rightarrow> bool" where
  "carries message context e =
     (case e of
        HandlerCalled h m c \<Rightarrow> m = message \<and> c = context
      | MiddlewareCalled f m c \<Rightarrow> m = message \<and> c = context
      | _ \<Rightarrow> True)"

definition target_calls :: "val list \<Rightarrow> val \<Rightarrow> val \<Rightarrow> val \<Rightarrow> event list" where
  "target_calls ms message context handler =
     map (\<lambda>m. MiddlewareCalled m message context) ms @ [HandlerCalled handler message context]"

text \<open>
  How the \<^verbatim>\<open>.catch\<close> handler of a broadcast turns the outcome of a target into the outcome
  of its task.
\<close>

definition substitutes :: "outcome \<Rightarrow> outcome \<Rightarrow> bool" where
  "substitutes settled task' =
     (case settled of
        Inr response \<Rightarrow> task' = Inr response
      | Inl error \<Rightarrow>
          (case error_message error of
             Inl e \<Rightarrow> task' = Inl e
           | Inr text \<Rightarrow> (\<exists>r. task' = Inr (VObj r [(''error'', text)]))))"

text \<open>
  What the listeners do to the set of an event while it is iterated.
  \<open>never_subscribes subs event\<close>: no listener calls \<^verbatim>\<open>on\<close> for the event.
  \<open>leaves_alone subs event\<close>: no listener calls \<^verbatim>\<open>on\<close> or \<^verbatim>\<open>off\<close> for the event.
\<close>

fun is_subscribe :: "val \<Rightarrow> sub_op \<Rightarrow> bool" where
  "is_subscribe event (Subscribe ev callback) = (ev = event)"
| "is_subscribe event (Unsubscribe ev callback) = False"

definition never_subscribes :: "'u subscriptions \<Rightarrow> val \<Rightarrow> bool" where
  "never_subscribes subs event = (\<forall>f payload u. list_all (\<lambda>op. \<not> is_subscribe event op) (subs f payload u))"

fun op_event :: "sub_op \<Rightarrow> val" where
  "op_event (Subscribe ev callback) = ev"
| "op_event (Unsubscribe ev callback) = ev"

definition leaves_alone :: "'u subscriptions \<Rightarrow> val \<Rightarrow> bool" where
  "leaves_alone subs event = (\<forall>f payload u. list_all (\<lambda>op. op_event op \<noteq> event) (subs f payload u))"

text \<open>The invariant of the listener sets: a \<^verbatim>\<open>Set\<close> holds no value twice.\<close>

definition listeners_distinct :: "'u state \<Rightarrow> bool" where
  "listeners_distinct st = list_all (\<lambda>entry. distinct (snd entry)) (listeners st)"

section \<open>An example bridge\<close>

text \<open>
  Handler 0 answers with its message and counts its calls in the application's state,
  handler 1 throws an object whose \<^verbatim>\<open>message\<close> is \<^verbatim>\<open>"boom"\<close>, every other handler throws
  \<^verbatim>\<open>null\<close>. Middleware 10 calls \<^verbatim>\<open>next()\<close>, middleware 11 calls \<^verbatim>\<open>next\<close> with another
  message and context, every other middleware answers without calling \<^verbatim>\<open>next\<close>. Listener
  20 throws, every other listener adds 100 to the application's state.
\<close>

definition example_env :: "nat env" where
  "example_env =
     \<lparr>handler_of = (\<lambda>f message context u.
          if f = 0 then (Inr message, Suc u)
          else if f = 1 then (Inl (Thrown (VObj (AppRef 0) [(''message'', VStr ''boom'')])), u)
          else (Inl (Thrown VNull), u)),
      middleware_of = (\<lambda>f message context.
          if f = 10 then CallNext [] Done
          else if f = 11 then CallNext [VStr ''changed'', VObj (AppRef 1) [(''traced'', VBool True)]] Done
          else Done (Inr (VStr ''cached''))),
      listener_of = (\<lambda>f payload u.
          if f = 20 then (Inl (Thrown (VStr ''listener failed'')), u)
          else (Inr VUndefined, u + 100)),
      render = (\<lambda>v. ''?'')\<rparr>"

definition example_state :: "val list \<Rightarrow> nat state" where
  "example_state ms =
     \<lparr>plugins = [(VStr ''echo'', VFun 0), (VStr ''fail'', VFun 1)], middlewares = ms,
      listeners = [(VStr ''plugin:message'', [VFun 20, VFun 21])], created = 0, trace = [], user = 0\<rparr>"

definition failing_state :: "nat state" where
  "failing_state =
     \<lparr>plugins = [(VStr ''echo'', VFun 0), (VStr ''null'', VFun 2)], middlewares = [],
      listeners = [], created = 0, trace = [], user = 0\<rparr>"

definition idle_state :: "nat state" where
  "idle_state = constructor 0"

text \<open>
  What the listeners of the example do to the listener sets: listener 22 subscribes
  listener 23 to \<^verbatim>\<open>plugin:message\<close>; listener 24 removes itself from \<^verbatim>\<open>plugin:message\<close> and
  subscribes again, the first time it is called; listener 25 removes listener 21 from
  \<^verbatim>\<open>plugin:registered\<close>; the others call neither \<^verbatim>\<open>on\<close> nor \<^verbatim>\<open>off\<close>.
\<close>

definition example_subscriptions :: "nat subscriptions" where
  "example_subscriptions f payload u =
     (if f = 22 then [Subscribe (VStr ''plugin:message'') (VFun 23)]
      else if f = 24 \<and> u = 0 then
        [Unsubscribe (VStr ''plugin:message'') (VFun 24), Subscribe (VStr ''plugin:message'') (VFun 24)]
      else if f = 25 then [Unsubscribe (VStr ''plugin:registered'') (VFun 21)]
      else [])"

definition unsubscribing_state :: "nat state" where
  "unsubscribing_state = on (VStr ''plugin:registered'') (VFun 21) (on (VStr ''plugin:registered'') (VFun 25) (constructor 0))"

definition subscribed_twice_state :: "nat state" where
  "subscribed_twice_state =
     on (VStr ''plugin:unregistered'') (VFun 21) (on (VStr ''plugin:unregistered'') (VFun 21) (constructor 0))"

definition subscribing_state :: "nat state" where
  "subscribing_state = on (VStr ''plugin:message'') (VFun 22) (constructor 0)"

definition resubscribing_state :: "nat state" where
  "resubscribing_state = on (VStr ''plugin:message'') (VFun 24) (constructor 0)"

lemmas example_simps =
  example_env_def example_state_def send_def default_context_def new_object_def compose_def terminal_def
  call_middleware_def call_handler_def call_listener_def emit_def record_event_def map_has_def map_get_def
  passes_on_def short_circuits_def is_stage_call_def is_emitted_def template_def pipeline_of_def the_handler_def Let_def

section \<open>Maps, sets and lists\<close>

lemma map_of_map_set: "map_of (map_set m k v) = (map_of m)(k \<mapsto> v)"
  by (induction m) (auto simp: fun_eq_iff)

lemma map_has_map_set: "map_has (map_set m k v) k' = (k' = k \<or> map_has m k')"
  by (simp add: map_has_def map_of_map_set)

lemma map_get_map_set: "map_get (map_set m k v) k' = (if k' = k then Some v else map_get m k')"
  by (simp add: map_get_def map_of_map_set)

lemma map_of_filter_key: "map_of (filter (\<lambda>p. fst p \<noteq> k) m) k' = (if k' = k then None else map_of m k')"
  by (induction m) auto

lemma map_set_same: "map_of m k = Some v \<Longrightarrow> map_set m k v = m"
  by (induction m) (auto split: if_splits)

lemma filter_absent_key: "map_of m k = None \<Longrightarrow> filter (\<lambda>p. fst p \<noteq> k) m = m"
  by (induction m) (auto split: if_splits)

lemma map_of_map_set_entries: "set (map_set m k v) \<subseteq> insert (k, v) (set m)"
  by (induction m) (auto split: if_splits)

lemma list_all_map_set:
  "list_all P m \<Longrightarrow> P (k, v) \<Longrightarrow> list_all P (map_set m k v)"
  using map_of_map_set_entries [of m k v] by (auto simp: list_all_iff)

lemma set_add_distinct: "distinct xs \<Longrightarrow> distinct (set_add xs x)"
  by (simp add: set_add_def)

lemma count_list_filter: "P x \<Longrightarrow> count_list (filter P xs) x = count_list xs x"
  by (induction xs) auto

lemma count_list_distinct: "distinct xs \<Longrightarrow> count_list xs x = (if x \<in> set xs then 1 else 0)"
  by (induction xs) auto

lemma filter_none: "\<forall>e \<in> set es. \<not> P e \<Longrightarrow> filter P es = []"
  by (induction es) auto

section \<open>Steps that only add events\<close>

lemma extends_refl: "extends P st st"
  by (simp add: extends_def)

lemma extends_trans: "extends P a b \<Longrightarrow> extends P b c \<Longrightarrow> extends P a c"
  unfolding extends_def by (elim conjE exE) (rule conjI, simp, fastforce)

lemma extends_user: "extends P st (st\<lparr>user := u\<rparr>)"
  by (simp add: extends_def)

lemma extends_record: "P e \<Longrightarrow> extends P st (record_event e st)"
  by (simp add: extends_def record_event_def)

lemma extends_filter:
  assumes "extends P a b" and "\<And>e. P e \<Longrightarrow> \<not> Q e"
  shows "filter Q (trace b) = filter Q (trace a)"
proof -
  obtain es where "trace b = trace a @ es" and "\<forall>e \<in> set es. P e"
    using assms(1) by (auto simp: extends_def)
  then show ?thesis using assms(2) by (simp add: filter_none)
qed

lemma grows_refl: "grows P st st"
  by (simp add: grows_def)

lemma grows_trans: "grows P a b \<Longrightarrow> grows P b c \<Longrightarrow> grows P a c"
  by (auto simp: grows_def)

lemma grows_mono: "grows P a b \<Longrightarrow> (\<And>e. P e \<Longrightarrow> Q e) \<Longrightarrow> grows Q a b"
  unfolding grows_def by (auto simp: list_all_iff)

lemma grows_since: "grows P a b \<Longrightarrow> list_all P (drop (length (trace a)) (trace b))"
  by (auto simp: grows_def)

lemma grows_same_trace: "trace b = trace a \<Longrightarrow> grows P a b"
  by (simp add: grows_def)

lemma extends_grows: "extends P a b \<Longrightarrow> (\<And>e. P e \<Longrightarrow> Q e) \<Longrightarrow> grows Q a b"
  unfolding extends_def grows_def by (auto simp: list_all_iff)

lemma since_filter:
  assumes "grows Q a b" and "filter P (trace b) = filter P (trace a) @ xs"
  shows "filter P (since a b) = xs"
  using assms by (auto simp: grows_def since_def)

lemma since_append:
  assumes "grows Q a b" and "grows R b c"
  shows "since a c = since a b @ since b c"
  using assms by (auto simp: grows_def since_def)

section \<open>Values and the default context\<close>

lemma non_empty_string: "(\<not> falsy name \<and> typeof name = TString) = (\<exists>s. s \<noteq> [] \<and> name = VStr s)"
  by (cases name) auto

lemma is_function: "(typeof v = TFunction) = (\<exists>f. v = VFun f)"
  by (cases v) auto

lemma error_message_failure:
  "error_message e = Inl x \<Longrightarrow> e = Thrown VUndefined \<or> e = Thrown VNull"
  by (cases e; cases "case e of Thrown v \<Rightarrow> v | _ \<Rightarrow> VNaN") auto

lemma default_context_fields [simp]:
  "plugins (snd (default_context c st)) = plugins st"
  "middlewares (snd (default_context c st)) = middlewares st"
  "listeners (snd (default_context c st)) = listeners st"
  "trace (snd (default_context c st)) = trace st"
  "user (snd (default_context c st)) = user st"
  by (simp_all add: default_context_def new_object_def)

lemma default_context_defined: "fst (default_context ctx st) \<noteq> VUndefined"
  by (simp add: default_context_def new_object_def)

lemma since_default_context: "since (snd (default_context ctx st)) st' = since st st'"
  by (simp add: since_def)

section \<open>The pipeline\<close>

lemma call_handler_extends:
  "P (HandlerCalled h message context) \<Longrightarrow> extends P st (snd (call_handler env h message context st))"
  by (auto simp: call_handler_def Let_def extends_def record_event_def split: val.splits prod.splits)

lemma run_middleware_extends:
  assumes "\<And>args s. extends P s (snd (nxt args s))"
  shows "extends P st (snd (run_middleware p nxt st))"
proof (induction p arbitrary: st)
  case (Done r)
  show ?case by (simp add: extends_refl)
next
  case (CallNext args k)
  obtain r st1 where n: "nxt args st = (r, st1)" by (cases "nxt args st")
  have "extends P st st1" using assms [of st args] n by simp
  moreover have "extends P st1 (snd (run_middleware (k r) nxt st1))"
    using CallNext.IH by blast
  ultimately show ?case using n by (auto intro: extends_trans)
next
  case (Read f)
  then show ?case by simp
next
  case (Write g p)
  have "extends P st (st\<lparr>user := g (user st)\<rparr>)" by (rule extends_user)
  then show ?case using Write.IH [of "st\<lparr>user := g (user st)\<rparr>"] by (auto intro: extends_trans)
qed

lemma call_middleware_extends:
  assumes "\<And>args s. extends P s (snd (nxt args s))" and "P (MiddlewareCalled m message context)"
  shows "extends P st (snd (call_middleware env m message context nxt st))"
proof (cases m)
  case (VFun f)
  have "extends P st (record_event (MiddlewareCalled m message context) st)"
    using assms(2) by (rule extends_record)
  moreover have "extends P (record_event (MiddlewareCalled m message context) st)
     (snd (run_middleware (middleware_of env f message context) nxt (record_event (MiddlewareCalled m message context) st)))"
    using assms(1) by (rule run_middleware_extends)
  ultimately show ?thesis using VFun by (auto simp: call_middleware_def intro: extends_trans)
qed (simp_all add: call_middleware_def extends_refl)

lemma compose_extends:
  assumes "\<And>args s. extends P s (snd (final args s))"
    and "\<And>m. m \<in> set ms \<Longrightarrow> P (MiddlewareCalled m message context)"
  shows "extends P st (snd (compose env ms message context final args st))"
  using assms(2)
proof (induction ms arbitrary: st args)
  case Nil
  then show ?case using assms(1) by (simp add: compose_def)
next
  case (Cons m ms)
  have "\<And>args s. extends P s (snd (compose env ms message context final args s))"
    using Cons by simp
  then have "extends P st (snd (call_middleware env m message context (compose env ms message context final) st))"
    using Cons.prems by (intro call_middleware_extends) auto
  then show ?case by (simp add: compose_def)
qed

lemma compose_Cons:
  "compose env (m # ms) message context final =
     (\<lambda>args. call_middleware env m message context (compose env ms message context final))"
  by (simp add: compose_def)

lemma compose_append:
  "compose env (xs @ ys) message context final =
     compose env xs message context (compose env ys message context final)"
  by (simp add: compose_def)

lemma compose_ignores_arguments:
  "compose env ms message c (terminal env h message c) args =
   compose env ms message c (terminal env h message c) args'"
  by (cases ms) (simp_all add: compose_def terminal_def)

lemma terminal_trace:
  "trace (snd (terminal env (VFun h) message context args st)) = trace st @ [HandlerCalled (VFun h) message context]"
  by (simp add: terminal_def call_handler_def record_event_def Let_def split: prod.splits)

lemma stage_calls_map:
  "filter is_stage_call (map (\<lambda>m. MiddlewareCalled m message context) ms) = map (\<lambda>m. MiddlewareCalled m message context) ms"
  by (induction ms) (simp_all add: is_stage_call_def)

lemma never_run:
  "never_calls_next p \<Longrightarrow> \<exists>r u. \<forall>nxt. run_middleware p nxt st = (r, st\<lparr>user := u\<rparr>)"
proof (induction p arbitrary: st)
  case (Done r)
  have "\<forall>nxt. run_middleware (Done r) nxt st = (r, st\<lparr>user := user st\<rparr>)" by simp
  then show ?case by blast
next
  case (CallNext args k)
  then show ?case by simp
next
  case (Read f)
  then show ?case by simp
next
  case (Write g p)
  then obtain r u where "\<forall>nxt. run_middleware p nxt (st\<lparr>user := g (user st)\<rparr>) = (r, st\<lparr>user := g (user st)\<rparr>\<lparr>user := u\<rparr>)"
    by fastforce
  then have "\<forall>nxt. run_middleware (Write g p) nxt st = (r, st\<lparr>user := u\<rparr>)" by simp
  then show ?case by blast
qed

lemma never_trace: "never_calls_next p \<Longrightarrow> trace (snd (run_middleware p nxt st)) = trace st"
  using never_run [of p st] by auto

lemma once_trace:
  assumes "\<And>args s. trace (snd (nxt args s)) = trace s @ T"
  shows "calls_next_once p \<Longrightarrow> trace (snd (run_middleware p nxt st)) = trace st @ T"
proof (induction p arbitrary: st)
  case (Done r)
  then show ?case by simp
next
  case (CallNext args k)
  obtain r st1 where n: "nxt args st = (r, st1)" by (cases "nxt args st")
  have "trace st1 = trace st @ T" using assms [of args st] n by simp
  moreover have "trace (snd (run_middleware (k r) nxt st1)) = trace st1"
    using CallNext.prems by (simp add: never_trace)
  ultimately show ?case using n by simp
next
  case (Read f)
  then show ?case by simp
next
  case (Write g p)
  then show ?case by simp
qed

lemma compose_passes_on_trace:
  assumes "\<And>args s. trace (snd (final args s)) = trace s @ T"
  shows "\<forall>m \<in> set ms. passes_on env m message context \<Longrightarrow>
     trace (snd (compose env ms message context final args st)) =
       trace st @ map (\<lambda>m. MiddlewareCalled m message context) ms @ T"
proof (induction ms arbitrary: args st)
  case Nil
  then show ?case using assms by (simp add: compose_def)
next
  case (Cons m ms)
  then obtain f where m: "m = VFun f" and o: "calls_next_once (middleware_of env f message context)"
    by (auto simp: passes_on_def split: val.splits)
  have nxt: "\<And>args s. trace (snd (compose env ms message context final args s)) =
      trace s @ (map (\<lambda>m. MiddlewareCalled m message context) ms @ T)"
    using Cons by simp
  show ?case
    using once_trace [OF nxt o]
    by (simp add: compose_Cons call_middleware_def m record_event_def)
qed

lemma short_circuit_trace:
  assumes "short_circuits env m message context"
  shows "trace (snd (compose env (m # post) message context final args st)) =
           trace st @ [MiddlewareCalled m message context]"
proof -
  obtain f where m: "m = VFun f" and n: "never_calls_next (middleware_of env f message context)"
    using assms by (auto simp: short_circuits_def split: val.splits)
  show ?thesis
    using never_trace [OF n]
    by (simp add: compose_Cons call_middleware_def m record_event_def)
qed

lemma pipeline_extends:
  "extends is_stage_call st (snd (pipeline_of env st0 name message context args st))"
  unfolding pipeline_of_def
  by (rule compose_extends)
     (simp_all add: terminal_def call_handler_extends is_stage_call_def)

lemma pipeline_emissions:
  "filter (is_emitted ev) (trace (snd (pipeline_of env st0 name message context args st))) = filter (is_emitted ev) (trace st)"
  using pipeline_extends
  by (rule extends_filter) (auto simp: is_stage_call_def is_emitted_def split: event.splits)

lemma pipeline_grows:
  "grows (stage_of ms h message c) st (snd (compose env ms message c (terminal env h message c) args st))"
proof -
  have "extends (stage_of ms h message c) st (snd (compose env ms message c (terminal env h message c) args st))"
    by (rule compose_extends) (simp_all add: terminal_def call_handler_extends stage_of_def)
  then show ?thesis by (rule extends_grows)
qed

section \<open>Emission\<close>

lemma is_listener_call_simps [simp]:
  "is_listener_call (ListenerCalled cb p)"
  "\<not> is_listener_call (HandlerCalled h m c)"
  "\<not> is_listener_call (MiddlewareCalled f m c)"
  "\<not> is_listener_call (Emitted ev p)"
  "\<not> is_listener_call (Logged text err)"
  by (simp_all add: is_listener_call_def)

lemma call_listener_extends:
  "P (ListenerCalled cb payload) \<Longrightarrow> extends P st (snd (call_listener env cb payload st))"
  by (auto simp: call_listener_def Let_def extends_def record_event_def split: val.splits prod.splits)

lemma call_listener_function:
  "call_listener env (VFun f) payload st =
     (fst (listener_of env f payload (user st)),
      st\<lparr>trace := trace st @ [ListenerCalled (VFun f) payload], user := snd (listener_of env f payload (user st))\<rparr>)"
  by (simp add: call_listener_def record_event_def Let_def split: prod.splits)

lemma call_listener_other:
  "typeof cb \<noteq> TFunction \<Longrightarrow> call_listener env cb payload st = (Inl (TypeError ''callback is not a function''), st)"
  by (cases cb) (simp_all add: call_listener_def)

lemma notify_extends:
  assumes "\<And>cb. P (ListenerCalled cb payload)" and "\<And>text err. P (Logged text err)"
  shows "extends P st (notify env event cbs payload st)"
proof (induction cbs arbitrary: st)
  case Nil
  show ?case by (simp add: extends_refl)
next
  case (Cons cb cbs)
  obtain r st1 where c: "call_listener env cb payload st = (r, st1)"
    by (cases "call_listener env cb payload st")
  have a: "extends P st st1"
    using call_listener_extends [of P cb payload st env] assms(1) c by simp
  show ?case
  proof (cases r)
    case (Inr v)
    then show ?thesis using c a Cons.IH [of st1] by (auto intro: extends_trans)
  next
    case (Inl err)
    let ?st2 = "record_event (Logged (listener_error_text env event) err) st1"
    have "extends P st1 ?st2" using assms(2) by (rule extends_record)
    with a have "extends P st ?st2" by (rule extends_trans)
    then show ?thesis using c Inl Cons.IH [of ?st2] by (auto intro: extends_trans)
  qed
qed




lemma emit_extends:
  assumes "P (Emitted event payload)" and "\<And>cb. P (ListenerCalled cb payload)"
    and "\<And>text err. P (Logged text err)"
  shows "extends P st (emit env event payload st)"
proof -
  let ?st0 = "record_event (Emitted event payload) st"
  have a: "extends P st ?st0" using assms(1) by (rule extends_record)
  have b: "extends P ?st0 (notify env event cbs payload ?st0)" for cbs
    using assms(2,3) by (rule notify_extends)
  show ?thesis
    using a extends_trans [OF a b]
    by (auto simp: emit_def Let_def split: option.splits)
qed

lemma emit_plugins [simp]: "plugins (emit env event payload st) = plugins st"
  and emit_middlewares [simp]: "middlewares (emit env event payload st) = middlewares st"
  and emit_listeners [simp]: "listeners (emit env event payload st) = listeners st"
  and emit_created [simp]: "created (emit env event payload st) = created st"
  using emit_extends [of "\<lambda>e. True" event payload st env] by (simp_all add: extends_def)

lemma emit_emissions:
  "filter (is_emitted ev) (trace (emit env event payload st)) =
     filter (is_emitted ev) (trace st) @ (if event = ev then [Emitted event payload] else [])"
proof -
  let ?st0 = "record_event (Emitted event payload) st"
  have "extends is_notification ?st0 (notify env event cbs payload ?st0)" for cbs
    by (rule notify_extends) (simp_all add: is_notification_def)
  then have n: "filter (is_emitted ev) (trace (notify env event cbs payload ?st0)) = filter (is_emitted ev) (trace ?st0)" for cbs
    by (rule extends_filter) (auto simp: is_notification_def is_emitted_def split: event.splits)
  have "filter (is_emitted ev) (trace (emit env event payload st)) = filter (is_emitted ev) (trace ?st0)"
    using n by (simp add: emit_def Let_def split: option.splits)
  then show ?thesis by (simp add: record_event_def is_emitted_def)
qed





section \<open>The registry\<close>

lemma registerPlugin_success:
  assumes "fst (registerPlugin env name handler st) = Inr ()"
  shows "plugins (snd (registerPlugin env name handler st)) = map_set (plugins st) name handler
    \<and> \<not> falsy name \<and> typeof name = TString \<and> typeof handler = TFunction \<and> \<not> map_has (plugins st) name"
  using assms
  by (auto simp: registerPlugin_def new_object_def Let_def split: if_splits)

lemma unregisterPlugin_absent:
  assumes "\<not> map_has (plugins st) name"
  shows "unregisterPlugin env name st = st"
proof -
  have "filter (\<lambda>p. fst p \<noteq> name) (plugins st) = plugins st"
    using assms by (simp add: map_has_def filter_absent_key)
  then show ?thesis using assms by (simp add: unregisterPlugin_def map_delete_def)
qed

lemma unregisterPlugin_present:
  assumes "map_has (plugins st) name"
  shows "unregisterPlugin env name st =
     emit env (VStr ''plugin:unregistered'') (VObj (BridgeRef (created st)) [(''name'', name)])
       (st\<lparr>plugins := filter (\<lambda>p. fst p \<noteq> name) (plugins st), created := Suc (created st)\<rparr>)"
  using assms by (simp add: unregisterPlugin_def map_delete_def new_object_def)

section \<open>Sending\<close>

lemma send_registered:
  assumes "map_has (plugins st) name"
  shows "send env name message ctx st =
     (case pipeline_of env (snd (default_context ctx st)) name message (fst (default_context ctx st)) []
             (snd (default_context ctx st)) of
        (Inl error, st1) \<Rightarrow> (Inl error, st1)
      | (Inr response, st1) \<Rightarrow>
          (Inr response,
           emit env (VStr ''plugin:message'')
             (VObj (BridgeRef (created st1)) [(''name'', name), (''message'', message), (''response'', response)])
             (st1\<lparr>created := Suc (created st1)\<rparr>)))"
proof -
  obtain c0 st0 where d: "default_context ctx st = (c0, st0)"
    by (cases "default_context ctx st")
  have "plugins st0 = plugins st"
    using default_context_fields [of ctx st] d by simp
  then show ?thesis
    using assms d
    by (auto simp: send_def pipeline_of_def the_handler_def new_object_def Let_def
             split: prod.splits sum.splits)
qed

lemma send_stage_calls:
  assumes "map_has (plugins st) name"
  shows "filter is_stage_call (trace (snd (send env name message ctx st))) =
         filter is_stage_call (trace (snd (pipeline_of env (snd (default_context ctx st)) name message
             (fst (default_context ctx st)) [] (snd (default_context ctx st)))))"
proof -
  let ?st0 = "snd (default_context ctx st)"
  let ?ctx = "fst (default_context ctx st)"
  obtain r st1 where p: "pipeline_of env ?st0 name message ?ctx [] ?st0 = (r, st1)"
    by (cases "pipeline_of env ?st0 name message ?ctx [] ?st0")
  show ?thesis
  proof (cases r)
    case (Inl err)
    then show ?thesis using p by (simp add: send_registered [OF assms])
  next
    case (Inr response)
    let ?payload = "VObj (BridgeRef (created st1)) [(''name'', name), (''message'', message), (''response'', response)]"
    have "extends not_stage_call (st1\<lparr>created := Suc (created st1)\<rparr>)
            (emit env (VStr ''plugin:message'') ?payload (st1\<lparr>created := Suc (created st1)\<rparr>))"
      by (rule emit_extends) (simp_all add: not_stage_call_def is_stage_call_def)
    then obtain es where "trace (emit env (VStr ''plugin:message'') ?payload (st1\<lparr>created := Suc (created st1)\<rparr>)) = trace st1 @ es"
      and "\<forall>e \<in> set es. \<not> is_stage_call e"
      by (auto simp: extends_def not_stage_call_def)
    then show ?thesis using p Inr by (simp add: send_registered [OF assms])
  qed
qed

lemma send_grows:
  assumes "map_has (plugins st) name"
  shows "grows (\<lambda>e. is_stage_call e \<longrightarrow>
                 stage_of (middlewares st) (the_handler st name) message (fst (default_context ctx st)) e)
           st (snd (send env name message ctx st))"
proof -
  let ?st0 = "snd (default_context ctx st)"
  let ?c = "fst (default_context ctx st)"
  let ?P = "\<lambda>e. is_stage_call e \<longrightarrow> stage_of (middlewares st) (the_handler st name) message ?c e"
  have h: "the_handler ?st0 name = the_handler st name" by (simp add: the_handler_def)
  obtain r st1 where p: "pipeline_of env ?st0 name message ?c [] ?st0 = (r, st1)"
    by (cases "pipeline_of env ?st0 name message ?c [] ?st0")
  have "grows (stage_of (middlewares st) (the_handler st name) message ?c) ?st0 st1"
    using pipeline_grows [of "middlewares st" "the_handler st name" message ?c ?st0 env "[]"] p
    by (simp add: pipeline_of_def h)
  then have a: "grows ?P ?st0 st1" by (rule grows_mono) simp
  have b: "grows ?P st ?st0" by (simp add: grows_same_trace)
  show ?thesis
  proof (cases r)
    case (Inl err)
    then show ?thesis using p grows_trans [OF b a] by (simp add: send_registered [OF assms])
  next
    case (Inr response)
    let ?st2 = "st1\<lparr>created := Suc (created st1)\<rparr>"
    let ?payload = "VObj (BridgeRef (created st1)) [(''name'', name), (''message'', message), (''response'', response)]"
    have "extends not_stage_call ?st2 (emit env (VStr ''plugin:message'') ?payload ?st2)"
      by (rule emit_extends) (simp_all add: not_stage_call_def is_stage_call_def)
    then have "grows ?P ?st2 (emit env (VStr ''plugin:message'') ?payload ?st2)"
      by (rule extends_grows) (simp add: not_stage_call_def)
    moreover have "grows ?P st1 ?st2" by (simp add: grows_same_trace)
    ultimately have "grows ?P st (emit env (VStr ''plugin:message'') ?payload ?st2)"
      using a b by (blast intro: grows_trans)
    then show ?thesis using p Inr by (simp add: send_registered [OF assms])
  qed
qed

section \<open>Subscribing and unsubscribing\<close>

lemma listeners_entry_distinct:
  "listeners_distinct st \<Longrightarrow> map_of (listeners st) event = Some cbs \<Longrightarrow> distinct cbs"
  by (auto simp: listeners_distinct_def list_all_iff dest!: map_of_SomeD)

lemma subscribed_distinct: "listeners_distinct st \<Longrightarrow> distinct (subscribed st event)"
  by (auto simp: listeners_distinct_def subscribed_def map_get_def list_all_iff dest!: map_of_SomeD split: option.splits)

lemma subscribed_on:
  "subscribed (on event cb st) event' =
     (if event' = event then set_add (subscribed st event) cb else subscribed st event')"
  by (simp add: on_def subscribed_def map_has_def map_get_def map_of_map_set Let_def split: option.splits)

lemma subscribed_off:
  "subscribed (off event cb st) event' =
     (if event' = event then set_delete (subscribed st event) cb else subscribed st event')"
  by (auto simp: off_def subscribed_def map_has_def map_get_def map_of_map_set set_delete_def split: option.splits)

lemma on_listeners:
  "listeners (on event cb st) =
     (case map_of (listeners st) event of
        Some cbs \<Rightarrow> map_set (listeners st) event (set_add cbs cb)
      | None \<Rightarrow> map_set (map_set (listeners st) event []) event (set_add [] cb))"
  by (simp add: on_def map_has_def map_get_def map_of_map_set Let_def split: option.splits)

lemma off_listeners:
  "listeners (off event cb st) =
     (case map_of (listeners st) event of
        Some cbs \<Rightarrow> map_set (listeners st) event (set_delete cbs cb)
      | None \<Rightarrow> listeners st)"
  by (simp add: off_def map_has_def map_get_def split: option.splits)

lemma on_listeners_distinct:
  assumes "listeners_distinct st"
  shows "listeners_distinct (on event cb st)"
proof (cases "map_of (listeners st) event")
  case None
  have "list_all (\<lambda>entry. distinct (snd entry)) (map_set (listeners st) event [])"
    using assms by (intro list_all_map_set) (simp_all add: listeners_distinct_def)
  then have "list_all (\<lambda>entry. distinct (snd entry)) (map_set (map_set (listeners st) event []) event (set_add [] cb))"
    by (rule list_all_map_set) (simp add: set_add_def)
  then show ?thesis using None by (simp add: listeners_distinct_def on_listeners)
next
  case (Some cbs)
  then have "distinct (set_add cbs cb)"
    using assms by (intro set_add_distinct listeners_entry_distinct)
  then have "list_all (\<lambda>entry. distinct (snd entry)) (map_set (listeners st) event (set_add cbs cb))"
    using assms by (intro list_all_map_set) (simp_all add: listeners_distinct_def)
  then show ?thesis using Some by (simp add: listeners_distinct_def on_listeners)
qed

lemma off_listeners_distinct:
  assumes "listeners_distinct st"
  shows "listeners_distinct (off event cb st)"
proof (cases "map_of (listeners st) event")
  case None
  then show ?thesis using assms by (simp add: listeners_distinct_def off_listeners)
next
  case (Some cbs)
  then have "distinct (set_delete cbs cb)"
    using listeners_entry_distinct [OF assms Some] by (simp add: set_delete_def distinct_removeAll)
  then have "list_all (\<lambda>entry. distinct (snd entry)) (map_set (listeners st) event (set_delete cbs cb))"
    using assms by (intro list_all_map_set) (simp_all add: listeners_distinct_def)
  then show ?thesis using Some by (simp add: listeners_distinct_def off_listeners)
qed

lemma on_twice: "on event cb (on event cb st) = on event cb st"
proof -
  let ?st1 = "on event cb st"
  obtain cbs where g: "map_of (listeners ?st1) event = Some cbs" and m: "cb \<in> set cbs"
    by (cases "map_of (listeners st) event")
       (auto simp: on_listeners map_of_map_set set_add_def)
  have "listeners (on event cb ?st1) = map_set (listeners ?st1) event (set_add cbs cb)"
    using g by (simp add: on_listeners [of event cb ?st1])
  also have "\<dots> = listeners ?st1"
    using m map_set_same [OF g] by (simp add: set_add_def)
  finally have "listeners (on event cb ?st1) = listeners ?st1" .
  moreover have "on event cb ?st1 = ?st1\<lparr>listeners := listeners (on event cb ?st1)\<rparr>"
    by (simp add: on_def [of event cb ?st1] Let_def)
  ultimately show ?thesis by simp
qed

lemma off_twice: "off event cb (off event cb st) = off event cb st"
proof (cases "map_of (listeners st) event")
  case None
  then show ?thesis by (simp add: off_def map_has_def)
next
  case (Some cbs)
  let ?st1 = "off event cb st"
  have g: "map_of (listeners ?st1) event = Some (removeAll cb cbs)"
    using Some by (simp add: off_listeners map_of_map_set set_delete_def)
  have "listeners (off event cb ?st1) = map_set (listeners ?st1) event (set_delete (removeAll cb cbs) cb)"
    using g by (simp add: off_listeners [of event cb ?st1])
  also have "\<dots> = listeners ?st1"
    using map_set_same [OF g] by (simp add: set_delete_def)
  finally have "listeners (off event cb ?st1) = listeners ?st1" .
  moreover have "off event cb ?st1 = ?st1\<lparr>listeners := listeners (off event cb ?st1)\<rparr>"
    using g by (simp add: off_def [of event cb ?st1] map_has_def map_get_def)
  ultimately show ?thesis by simp
qed

section \<open>Emission over a set that changes\<close>

lemma on_frame [simp]:
  "trace (on ev cb st) = trace st" "user (on ev cb st) = user st" "plugins (on ev cb st) = plugins st"
  "middlewares (on ev cb st) = middlewares st" "created (on ev cb st) = created st"
  by (simp_all add: on_def Let_def)

lemma off_frame [simp]:
  "trace (off ev cb st) = trace st" "user (off ev cb st) = user st" "plugins (off ev cb st) = plugins st"
  "middlewares (off ev cb st) = middlewares st" "created (off ev cb st) = created st"
  by (simp_all add: off_def split: option.splits)

lemma iterate_op_frame:
  "trace (snd (iterate_op event op (rest, st))) = trace st
   \<and> user (snd (iterate_op event op (rest, st))) = user st
   \<and> plugins (snd (iterate_op event op (rest, st))) = plugins st
   \<and> middlewares (snd (iterate_op event op (rest, st))) = middlewares st
   \<and> created (snd (iterate_op event op (rest, st))) = created st"
  by (cases op) simp_all

lemma fold_ops_frame:
  "trace (snd (fold (iterate_op event) ops (rest, st))) = trace st
   \<and> user (snd (fold (iterate_op event) ops (rest, st))) = user st
   \<and> plugins (snd (fold (iterate_op event) ops (rest, st))) = plugins st
   \<and> middlewares (snd (fold (iterate_op event) ops (rest, st))) = middlewares st
   \<and> created (snd (fold (iterate_op event) ops (rest, st))) = created st"
proof (induction ops arbitrary: rest st)
  case Nil
  show ?case by simp
next
  case (Cons op ops)
  obtain rest1 st1 where i: "iterate_op event op (rest, st) = (rest1, st1)"
    by (cases "iterate_op event op (rest, st)")
  show ?case
    using iterate_op_frame [of event op rest st] Cons.IH [of rest1 st1] i by simp
qed

lemma iterate_op_other:
  "op_event op \<noteq> event \<Longrightarrow>
     fst (iterate_op event op (rest, st)) = rest
     \<and> subscribed (snd (iterate_op event op (rest, st))) event = subscribed st event"
  by (cases op) (auto simp: subscribed_on subscribed_off)

lemma fold_ops_other:
  "list_all (\<lambda>op. op_event op \<noteq> event) ops \<Longrightarrow>
     fst (fold (iterate_op event) ops (rest, st)) = rest
     \<and> subscribed (snd (fold (iterate_op event) ops (rest, st))) event = subscribed st event"
proof (induction ops arbitrary: st)
  case Nil
  show ?case by simp
next
  case (Cons op ops)
  obtain rest1 st1 where i: "iterate_op event op (rest, st) = (rest1, st1)"
    by (cases "iterate_op event op (rest, st)")
  have "rest1 = rest \<and> subscribed st1 event = subscribed st event"
    using iterate_op_other [of op event rest st] Cons.prems i by simp
  then show ?case using Cons.IH [of st1] Cons.prems i by simp
qed

lemma call_listener_live_quiet:
  assumes "\<And>f p u. subs f p u = []"
  shows "call_listener_live env subs event cb rest payload st =
           (fst (call_listener env cb payload st), rest, snd (call_listener env cb payload st))"
  by (cases cb) (simp_all add: call_listener_live_def call_listener_def assms Let_def split: prod.splits)

lemma notify_live_quiet:
  assumes "\<And>f p u. subs f p u = []"
  shows "length rest \<le> fuel \<Longrightarrow>
     notify_live fuel env subs event rest payload st = Some (notify env event rest payload st)"
proof (induction rest arbitrary: fuel st)
  case Nil
  show ?case by simp
next
  case (Cons cb rest)
  then obtain n where n: "fuel = Suc n" and l: "length rest \<le> n" by (cases fuel) auto
  obtain r st1 where c: "call_listener env cb payload st = (r, st1)"
    by (cases "call_listener env cb payload st")
  show ?case
    using Cons.IH [OF l] c
    by (cases r) (simp_all add: n call_listener_live_quiet [of subs, OF assms])
qed

lemma emit_live_quiet:
  assumes "\<And>f p u. subs f p u = []" and "length (subscribed st event) \<le> fuel"
  shows "emit_live fuel env subs event payload st = Some (emit env event payload st)"
proof (cases "map_get (listeners st) event")
  case None
  then show ?thesis by (simp add: emit_live_def emit_def map_has_def map_get_def record_event_def)
next
  case (Some cbs)
  then have "length cbs \<le> fuel" using assms(2) by (simp add: subscribed_def)
  then show ?thesis
    using Some notify_live_quiet [of subs cbs fuel env event payload, OF assms(1)]
    by (simp add: emit_live_def emit_def map_has_def map_get_def record_event_def)
qed

lemma call_listener_live_other:
  assumes "leaves_alone subs event"
  shows "\<exists>st1. call_listener_live env subs event cb rest payload st =
             (fst (call_listener env cb payload st), rest, st1)
           \<and> trace st1 = trace (snd (call_listener env cb payload st))
           \<and> subscribed st1 event = subscribed st event"
proof (cases cb)
  case (VFun f)
  let ?st1 = "record_event (ListenerCalled cb payload) st"
  let ?ops = "subs f payload (user ?st1)"
  have o: "list_all (\<lambda>op. op_event op \<noteq> event) ?ops" using assms by (simp add: leaves_alone_def)
  obtain rest1 st2 where f: "fold (iterate_op event) ?ops (rest, ?st1) = (rest1, st2)"
    by (cases "fold (iterate_op event) ?ops (rest, ?st1)")
  have "rest1 = rest" "subscribed st2 event = subscribed ?st1 event"
    using fold_ops_other [OF o, of rest ?st1] f by simp_all
  moreover have "trace st2 = trace ?st1" using fold_ops_frame [of event ?ops rest ?st1] f by simp
  ultimately show ?thesis
    using f VFun
    by (simp add: call_listener_live_def call_listener_def Let_def subscribed_def record_event_def split: prod.splits)
qed (simp_all add: call_listener_live_def call_listener_def)

lemma notify_live_calls:
  assumes "leaves_alone subs event"
  shows "length rest \<le> fuel \<Longrightarrow>
     \<exists>st'. notify_live fuel env subs event rest payload st = Some st'
          \<and> (\<exists>es. trace st' = trace st @ es
                \<and> filter is_listener_call es =
                    map (\<lambda>cb. ListenerCalled cb payload) (filter (\<lambda>cb. typeof cb = TFunction) rest))"
proof (induction rest arbitrary: fuel st)
  case Nil
  show ?case by simp
next
  case (Cons cb rest)
  then obtain n where n: "fuel = Suc n" and l: "length rest \<le> n" by (cases fuel) auto
  obtain r st0 where c: "call_listener env cb payload st = (r, st0)"
    by (cases "call_listener env cb payload st")
  obtain st1 where live: "call_listener_live env subs event cb rest payload st = (r, rest, st1)"
    and t1: "trace st1 = trace st0"
    using call_listener_live_other [OF assms, of env cb rest payload st] c by auto
  have t0: "trace st0 = trace st @ (if typeof cb = TFunction then [ListenerCalled cb payload] else [])"
  proof (cases "typeof cb = TFunction")
    case True
    then obtain f where "cb = VFun f" by (cases cb) auto
    then show ?thesis using c by (auto simp: call_listener_function)
  next
    case False
    then show ?thesis using c by (auto simp: call_listener_other)
  qed
  let ?st2 = "case r of Inr v \<Rightarrow> st1 | Inl error \<Rightarrow> record_event (Logged (listener_error_text env event) error) st1"
  have step: "notify_live fuel env subs event (cb # rest) payload st = notify_live n env subs event rest payload ?st2"
    using live by (cases r) (simp_all add: n)
  have t2: "\<exists>es. trace ?st2 = trace st @ es
      \<and> filter is_listener_call es = (if typeof cb = TFunction then [ListenerCalled cb payload] else [])"
    using t0 t1 by (cases r) (simp_all add: record_event_def)
  obtain st' es' where s: "notify_live n env subs event rest payload ?st2 = Some st'"
    and e: "trace st' = trace ?st2 @ es'"
    and f: "filter is_listener_call es' = map (\<lambda>cb. ListenerCalled cb payload) (filter (\<lambda>cb. typeof cb = TFunction) rest)"
    using Cons.IH [OF l, of ?st2] by blast
  obtain es2 where e2: "trace ?st2 = trace st @ es2"
    and f2: "filter is_listener_call es2 = (if typeof cb = TFunction then [ListenerCalled cb payload] else [])"
    using t2 by blast
  have "trace st' = trace st @ (es2 @ es')" using e e2 by simp
  moreover have "filter is_listener_call (es2 @ es') =
      map (\<lambda>cb. ListenerCalled cb payload) (filter (\<lambda>cb. typeof cb = TFunction) (cb # rest))"
    using f f2 by simp
  moreover have "notify_live fuel env subs event (cb # rest) payload st = Some st'"
    using step s by simp
  ultimately show ?case by (intro exI conjI) assumption+
qed

lemma emit_live_calls:
  assumes "leaves_alone subs event" and "length (subscribed st event) \<le> fuel"
  shows "\<exists>st'. emit_live fuel env subs event payload st = Some st'
          \<and> filter is_listener_call (since st st') =
               map (\<lambda>cb. ListenerCalled cb payload) (filter (\<lambda>cb. typeof cb = TFunction) (subscribed st event))"
proof (cases "map_get (listeners st) event")
  case None
  then show ?thesis
    by (simp add: emit_live_def map_has_def map_get_def record_event_def subscribed_def since_def)
next
  case (Some cbs)
  let ?st0 = "record_event (Emitted event payload) st"
  have "length cbs \<le> fuel" using assms(2) Some by (simp add: subscribed_def)
  then obtain st' es where s: "notify_live fuel env subs event cbs payload ?st0 = Some st'"
    and e: "trace st' = trace ?st0 @ es"
    and f: "filter is_listener_call es = map (\<lambda>cb. ListenerCalled cb payload) (filter (\<lambda>cb. typeof cb = TFunction) cbs)"
    using notify_live_calls [OF assms(1), of cbs fuel env payload ?st0] by blast
  have "emit_live fuel env subs event payload st = Some st'"
    using Some s by (simp add: emit_live_def map_has_def map_get_def record_event_def)
  moreover have "filter is_listener_call (since st st') =
      map (\<lambda>cb. ListenerCalled cb payload) (filter (\<lambda>cb. typeof cb = TFunction) (subscribed st event))"
    using e f Some by (simp add: since_def record_event_def subscribed_def)
  ultimately show ?thesis by blast
qed


lemma subseq_count_list: "subseq xs ys \<Longrightarrow> count_list xs x \<le> count_list ys x"
  by (induction rule: list_emb.induct) auto

lemma subseq_set: "subseq xs ys \<Longrightarrow> set xs \<subseteq> set ys"
  by (induction rule: list_emb.induct) auto

lemma subseq_length: "subseq xs ys \<Longrightarrow> length xs \<le> length ys"
  by (induction rule: list_emb.induct) auto

lemma leaves_alone_never_subscribes: "leaves_alone subs event \<Longrightarrow> never_subscribes subs event"
proof -
  have "\<not> is_subscribe event op" if "op_event op \<noteq> event" for op
    using that by (cases op) auto
  then show "leaves_alone subs event \<Longrightarrow> never_subscribes subs event"
    by (auto simp: leaves_alone_def never_subscribes_def list_all_iff)
qed

lemma iterate_op_removal:
  "\<not> is_subscribe event op \<Longrightarrow> subseq (fst (iterate_op event op (rest, st))) rest"
  by (cases op) (simp_all add: removeAll_filter_not_eq)

lemma fold_ops_removal:
  "list_all (\<lambda>op. \<not> is_subscribe event op) ops \<Longrightarrow> subseq (fst (fold (iterate_op event) ops (rest, st))) rest"
proof (induction ops arbitrary: rest st)
  case Nil
  show ?case by simp
next
  case (Cons op ops)
  obtain rest1 st1 where i: "iterate_op event op (rest, st) = (rest1, st1)"
    by (cases "iterate_op event op (rest, st)")
  have "subseq rest1 rest" using iterate_op_removal [of event op rest st] Cons.prems i by simp
  moreover have "subseq (fst (fold (iterate_op event) ops (rest1, st1))) rest1"
    using Cons.IH [of rest1 st1] Cons.prems by simp
  ultimately show ?case using i by (simp add: subseq_order.trans)
qed

lemma call_listener_live_removal:
  assumes "never_subscribes subs event"
  shows "\<exists>rest1 st1. call_listener_live env subs event cb rest payload st =
             (fst (call_listener env cb payload st), rest1, st1)
           \<and> trace st1 = trace (snd (call_listener env cb payload st))
           \<and> subseq rest1 rest"
proof (cases cb)
  case (VFun f)
  let ?st1 = "record_event (ListenerCalled cb payload) st"
  let ?ops = "subs f payload (user ?st1)"
  have o: "list_all (\<lambda>op. \<not> is_subscribe event op) ?ops" using assms by (simp add: never_subscribes_def)
  obtain rest1 st2 where f: "fold (iterate_op event) ?ops (rest, ?st1) = (rest1, st2)"
    by (cases "fold (iterate_op event) ?ops (rest, ?st1)")
  have "subseq rest1 rest" using fold_ops_removal [OF o, of rest ?st1] f by simp
  moreover have "trace st2 = trace ?st1" using fold_ops_frame [of event ?ops rest ?st1] f by simp
  ultimately show ?thesis
    using f VFun
    by (simp add: call_listener_live_def call_listener_def Let_def record_event_def split: prod.splits)
qed (simp_all add: call_listener_live_def call_listener_def)

lemma notify_live_removals:
  assumes "never_subscribes subs event"
  shows "length rest \<le> fuel \<Longrightarrow>
     \<exists>st' es called. notify_live fuel env subs event rest payload st = Some st'
          \<and> trace st' = trace st @ es
          \<and> filter is_listener_call es = map (\<lambda>cb. ListenerCalled cb payload) called
          \<and> subseq called (filter (\<lambda>cb. typeof cb = TFunction) rest)"
proof (induction fuel arbitrary: rest st)
  case 0
  then show ?case by simp
next
  case (Suc n)
  show ?case
  proof (cases rest)
    case Nil
    then show ?thesis by simp
  next
    case (Cons cb rest')
    obtain r st0 where c: "call_listener env cb payload st = (r, st0)"
      by (cases "call_listener env cb payload st")
    obtain rest1 st1 where live: "call_listener_live env subs event cb rest' payload st = (r, rest1, st1)"
      and t1: "trace st1 = trace st0" and sub: "subseq rest1 rest'"
      using call_listener_live_removal [OF assms, of env cb rest' payload st] c by auto
    have l: "length rest1 \<le> n" using subseq_length [OF sub] Suc.prems Cons by simp
    have t0: "trace st0 = trace st @ (if typeof cb = TFunction then [ListenerCalled cb payload] else [])"
    proof (cases "typeof cb = TFunction")
      case True
      then obtain f where "cb = VFun f" by (cases cb) auto
      then show ?thesis using c by (auto simp: call_listener_function)
    next
      case False
      then show ?thesis using c by (auto simp: call_listener_other)
    qed
    let ?st2 = "case r of Inr v \<Rightarrow> st1 | Inl error \<Rightarrow> record_event (Logged (listener_error_text env event) error) st1"
    have step: "notify_live (Suc n) env subs event (cb # rest') payload st = notify_live n env subs event rest1 payload ?st2"
      using live by (cases r) simp_all
    have "\<exists>es. trace ?st2 = trace st @ es
        \<and> filter is_listener_call es = (if typeof cb = TFunction then [ListenerCalled cb payload] else [])"
      using t0 t1 by (cases r) (simp_all add: record_event_def)
    then obtain es2 where e2: "trace ?st2 = trace st @ es2"
      and f2: "filter is_listener_call es2 = (if typeof cb = TFunction then [ListenerCalled cb payload] else [])"
      by blast
    obtain st' es' called' where s: "notify_live n env subs event rest1 payload ?st2 = Some st'"
      and e: "trace st' = trace ?st2 @ es'"
      and f: "filter is_listener_call es' = map (\<lambda>cb. ListenerCalled cb payload) called'"
      and q: "subseq called' (filter (\<lambda>cb. typeof cb = TFunction) rest1)"
      using Suc.IH [OF l, of ?st2] by blast
    let ?called = "(if typeof cb = TFunction then [cb] else []) @ called'"
    have q': "subseq called' (filter (\<lambda>cb. typeof cb = TFunction) rest')"
      using q subseq_filter [OF sub, of "\<lambda>cb. typeof cb = TFunction"] by (rule subseq_order.trans)
    have 1: "notify_live (Suc n) env subs event rest payload st = Some st'"
      using step s Cons by simp
    have 2: "trace st' = trace st @ (es2 @ es')" using e e2 by simp
    have 3: "filter is_listener_call (es2 @ es') = map (\<lambda>cb. ListenerCalled cb payload) ?called"
      using f f2 by simp
    have 4: "subseq ?called (filter (\<lambda>cb. typeof cb = TFunction) rest)"
      using q' Cons by simp
    show ?thesis using 1 2 3 4 by blast
  qed
qed

lemma emit_live_removals:
  assumes "never_subscribes subs event" and "length (subscribed st event) \<le> fuel"
  shows "\<exists>st' called. emit_live fuel env subs event payload st = Some st'
          \<and> filter is_listener_call (since st st') = map (\<lambda>cb. ListenerCalled cb payload) called
          \<and> subseq called (filter (\<lambda>cb. typeof cb = TFunction) (subscribed st event))"
proof (cases "map_get (listeners st) event")
  case None
  then show ?thesis
    by (simp add: emit_live_def map_has_def map_get_def record_event_def subscribed_def since_def)
next
  case (Some cbs)
  let ?st0 = "record_event (Emitted event payload) st"
  have "length cbs \<le> fuel" using assms(2) Some by (simp add: subscribed_def)
  then obtain st' es called where s: "notify_live fuel env subs event cbs payload ?st0 = Some st'"
    and e: "trace st' = trace ?st0 @ es"
    and f: "filter is_listener_call es = map (\<lambda>cb. ListenerCalled cb payload) called"
    and q: "subseq called (filter (\<lambda>cb. typeof cb = TFunction) cbs)"
    using notify_live_removals [OF assms(1), of cbs fuel env payload ?st0] by blast
  have "emit_live fuel env subs event payload st = Some st'"
    using Some s by (simp add: emit_live_def map_has_def map_get_def record_event_def)
  moreover have "filter is_listener_call (since st st') = map (\<lambda>cb. ListenerCalled cb payload) called"
    using e f by (simp add: since_def record_event_def)
  moreover have "subseq called (filter (\<lambda>cb. typeof cb = TFunction) (subscribed st event))"
    using q Some by (simp add: subscribed_def)
  ultimately show ?thesis by blast
qed

lemma count_list_listener_calls:
  assumes "filter is_listener_call es = map (\<lambda>cb. ListenerCalled cb payload) called"
  shows "count_list es (ListenerCalled cb payload) = count_list called cb"
proof -
  have "count_list es (ListenerCalled cb payload) =
        count_list (filter is_listener_call es) (ListenerCalled cb payload)"
    by (simp add: count_list_filter)
  also have "\<dots> = count_list (map (\<lambda>cb. ListenerCalled cb payload) called) (ListenerCalled cb payload)"
    by (simp add: assms)
  also have "\<dots> = count_list called cb"
    by (rule count_list_map_conv) (simp add: inj_def)
  finally show ?thesis .
qed

section \<open>Broadcasting\<close>

lemma send_split:
  "send env name message ctx st =
     send_resume env name message (fst (send_start env name message ctx st))
       (snd (send_start env name message ctx st))"
  by (cases "default_context ctx st")
     (auto simp: send_def send_start_def send_resume_def Let_def split: prod.splits sum.splits)

lemma send_start_outcome: "fst (send_start env name message ctx st) = fst (send env name message ctx st)"
  by (cases "send_start env name message ctx st"; cases "fst (send_start env name message ctx st)")
     (auto simp: send_split send_resume_def new_object_def Let_def split: prod.splits)

lemma send_start_unknown:
  "\<not> map_has (plugins st) name \<Longrightarrow> trace (snd (send_start env name message ctx st)) = trace st"
  by (cases "default_context ctx st")
     (auto simp: send_start_def default_context_def new_object_def Let_def split: if_splits)

lemma send_start_registered:
  assumes "map_has (plugins st) name"
  shows "send_start env name message ctx st =
     pipeline_of env (snd (default_context ctx st)) name message (fst (default_context ctx st)) []
       (snd (default_context ctx st))"
proof -
  obtain c0 st0 where d: "default_context ctx st = (c0, st0)"
    by (cases "default_context ctx st")
  have "plugins st0 = plugins st"
    using default_context_fields [of ctx st] d by simp
  then show ?thesis
    using assms d by (simp add: send_start_def pipeline_of_def the_handler_def)
qed

lemma send_start_frame:
  "plugins (snd (send_start env name message ctx st)) = plugins st
   \<and> middlewares (snd (send_start env name message ctx st)) = middlewares st
   \<and> listeners (snd (send_start env name message ctx st)) = listeners st"
proof (cases "map_has (plugins st) name")
  case False
  then show ?thesis
    by (cases "default_context ctx st")
       (auto simp: send_start_def default_context_def new_object_def Let_def split: if_splits)
next
  case True
  let ?st0 = "snd (default_context ctx st)"
  have "extends is_stage_call ?st0 (snd (send_start env name message ctx st))"
    by (simp add: send_start_registered [OF True] pipeline_extends)
  then show ?thesis by (simp add: extends_def)
qed

lemma send_start_carries:
  assumes "c \<noteq> VUndefined"
  shows "grows (carries message c) st (snd (send_start env name message c st))"
proof (cases "map_has (plugins st) name")
  case False
  then show ?thesis by (intro grows_same_trace send_start_unknown)
next
  case True
  have d: "default_context c st = (c, st)" using assms by (simp add: default_context_def)
  have "grows (stage_of (middlewares st) (the_handler st name) message c) st
          (snd (pipeline_of env st name message c [] st))"
    unfolding pipeline_of_def by (rule pipeline_grows)
  then have "grows (carries message c) st (snd (pipeline_of env st name message c [] st))"
    by (rule grows_mono) (auto simp: carries_def stage_of_def)
  then show ?thesis by (simp add: send_start_registered [OF True] d)
qed

lemma send_start_target_calls:
  assumes h: "map_get (plugins st) name = Some (VFun h)"
    and p: "\<forall>m \<in> set (middlewares st). passes_on env m message c"
    and c: "c \<noteq> VUndefined"
  shows "since st (snd (send_start env name message c st)) = target_calls (middlewares st) message c (VFun h)"
proof -
  have has: "map_has (plugins st) name" using h by (simp add: map_has_def map_get_def)
  have d: "default_context c st = (c, st)" using c by (simp add: default_context_def)
  have "trace (snd (compose env (middlewares st) message c (terminal env (VFun h) message c) [] st)) =
          trace st @ map (\<lambda>m. MiddlewareCalled m message c) (middlewares st) @ [HandlerCalled (VFun h) message c]"
    using terminal_trace p by (rule compose_passes_on_trace)
  then show ?thesis
    using h by (simp add: send_start_registered [OF has] d pipeline_of_def the_handler_def target_calls_def since_def)
qed

lemma send_resume_extends:
  "grows not_stage_call st (snd (send_resume env name message settled st))"
proof (cases settled)
  case (Inl error)
  then show ?thesis by (simp add: send_resume_def grows_refl)
next
  case (Inr response)
  let ?st2 = "st\<lparr>created := Suc (created st)\<rparr>"
  let ?payload = "VObj (BridgeRef (created st)) [(''name'', name), (''message'', message), (''response'', response)]"
  have "extends not_stage_call ?st2 (emit env (VStr ''plugin:message'') ?payload ?st2)"
    by (rule emit_extends) (simp_all add: not_stage_call_def is_stage_call_def)
  then have "grows not_stage_call ?st2 (emit env (VStr ''plugin:message'') ?payload ?st2)"
    by (rule extends_grows)
  moreover have "grows not_stage_call st ?st2" by (simp add: grows_same_trace)
  ultimately have "grows not_stage_call st (emit env (VStr ''plugin:message'') ?payload ?st2)"
    by (blast intro: grows_trans)
  then show ?thesis using Inr by (simp add: send_resume_def new_object_def)
qed

lemma send_resume_outcome: "fst (send_resume env name message settled st) = settled"
  by (cases settled) (simp_all add: send_resume_def new_object_def Let_def split: prod.splits)

lemma send_resume_frame:
  "plugins (snd (send_resume env name message settled st)) = plugins st
   \<and> middlewares (snd (send_resume env name message settled st)) = middlewares st
   \<and> listeners (snd (send_resume env name message settled st)) = listeners st"
  by (cases settled) (simp_all add: send_resume_def new_object_def Let_def split: prod.splits)

lemma catch_failure_result:
  "fst (catch_failure env name settled st) =
     (case settled of
        Inr response \<Rightarrow> Inr response
      | Inl error \<Rightarrow>
          (case error_message error of
             Inl e \<Rightarrow> Inl e
           | Inr text \<Rightarrow> Inr (VObj (BridgeRef (created st)) [(''error'', text)])))"
  by (auto simp: catch_failure_def new_object_def record_event_def Let_def split: sum.splits)

lemma catch_failure_trace:
  "trace (snd (catch_failure env name settled st)) =
     trace st @ (case settled of Inr response \<Rightarrow> [] | Inl error \<Rightarrow> [Logged (broadcast_error_text env name) error])"
  by (auto simp: catch_failure_def new_object_def record_event_def Let_def split: sum.splits)

lemma catch_failure_extends:
  "grows not_stage_call st (snd (catch_failure env name settled st))"
  by (cases settled) (simp_all add: grows_def catch_failure_trace not_stage_call_def is_stage_call_def)

lemma starts_frame:
  "plugins (snd (starts env names message c st)) = plugins st
   \<and> middlewares (snd (starts env names message c st)) = middlewares st
   \<and> listeners (snd (starts env names message c st)) = listeners st"
proof (induction names arbitrary: st)
  case Nil
  show ?case by simp
next
  case (Cons n names)
  obtain r st1 where t: "send_start env n message c st = (r, st1)" by (cases "send_start env n message c st")
  obtain rs st2 where ts: "starts env names message c st1 = (rs, st2)" by (cases "starts env names message c st1")
  show ?case
    using send_start_frame [of env n message c st] Cons.IH [of st1] t ts by simp
qed

lemma starts_carries:
  assumes "c \<noteq> VUndefined"
  shows "grows (carries message c) st (snd (starts env names message c st))"
proof (induction names arbitrary: st)
  case Nil
  show ?case by (simp add: grows_refl)
next
  case (Cons n names)
  obtain r st1 where t: "send_start env n message c st = (r, st1)" by (cases "send_start env n message c st")
  obtain rs st2 where ts: "starts env names message c st1 = (rs, st2)" by (cases "starts env names message c st1")
  have "grows (carries message c) st st1" using send_start_carries [OF assms, of message st env n] t by simp
  moreover have "grows (carries message c) st1 st2" using Cons.IH [of st1] ts by simp
  ultimately show ?case using t ts by (auto intro: grows_trans)
qed

lemma starts_target_calls:
  assumes c: "c \<noteq> VUndefined"
  shows "\<forall>m \<in> set (middlewares st). passes_on env m message c \<Longrightarrow>
     \<forall>n \<in> set names. \<exists>h. map_get (plugins st) n = Some (VFun h) \<Longrightarrow>
     since st (snd (starts env names message c st)) =
       concat (map (\<lambda>n. target_calls (middlewares st) message c (the_handler st n)) names)"
proof (induction names arbitrary: st)
  case Nil
  show ?case by (simp add: since_def)
next
  case (Cons n names)
  obtain r st1 where t: "send_start env n message c st = (r, st1)" by (cases "send_start env n message c st")
  obtain rs st2 where ts: "starts env names message c st1 = (rs, st2)" by (cases "starts env names message c st1")
  obtain h where h: "map_get (plugins st) n = Some (VFun h)" using Cons.prems(2) by auto
  have f: "plugins st1 = plugins st" "middlewares st1 = middlewares st"
    using send_start_frame [of env n message c st] t by simp_all
  have g1: "grows (carries message c) st st1" using send_start_carries [OF c, of message st env n] t by simp
  have g2: "grows (carries message c) st1 st2" using starts_carries [OF c, of message st1 env names] ts by simp
  have 1: "since st st1 = target_calls (middlewares st) message c (VFun h)"
    using send_start_target_calls [OF h Cons.prems(1) c] t by simp
  have 2: "since st1 st2 = concat (map (\<lambda>n. target_calls (middlewares st1) message c (the_handler st1 n)) names)"
    using Cons.IH [of st1] Cons.prems ts by (simp add: f)
  show ?case
    using since_append [OF g1 g2] 1 2 h t ts by (simp add: f the_handler_def)
qed

lemma starts_slots:
  "list_all2 (\<lambda>n r. \<exists>s. fst (send env n message c s) = r) names (fst (starts env names message c st))"
proof (induction names arbitrary: st)
  case Nil
  show ?case by simp
next
  case (Cons n names)
  obtain r st1 where t: "send_start env n message c st = (r, st1)" by (cases "send_start env n message c st")
  obtain rs st2 where ts: "starts env names message c st1 = (rs, st2)" by (cases "starts env names message c st1")
  have "list_all2 (\<lambda>n r. \<exists>s. fst (send env n message c s) = r) names rs"
    using Cons.IH [of st1] ts by simp
  moreover have "\<exists>s. fst (send env n message c s) = r"
    using t send_start_outcome [of env n message c st] by (metis fst_conv)
  ultimately show ?case using t ts by simp
qed

lemma resumes_outcomes:
  "length settled = length names \<Longrightarrow> fst (resumes env names message settled st) = settled"
proof (induction names arbitrary: settled st)
  case Nil
  then show ?case by simp
next
  case (Cons n names)
  then obtain r rest where s: "settled = r # rest" and l: "length rest = length names"
    by (cases settled) auto
  obtain r' st1 where t: "send_resume env n message r st = (r', st1)" by (cases "send_resume env n message r st")
  obtain rs st2 where ts: "resumes env names message rest st1 = (rs, st2)" by (cases "resumes env names message rest st1")
  have "r' = r" using send_resume_outcome [of env n message r st] t by simp
  moreover have "rs = rest" using Cons.IH [OF l, of st1] ts by simp
  ultimately show ?case using s t ts by simp
qed

lemma resumes_extends:
  "grows not_stage_call st (snd (resumes env names message settled st))"
proof (induction env names message settled st rule: resumes.induct)
  case (1 env name names message settled rest st)
  obtain r st1 where t: "send_resume env name message settled st = (r, st1)"
    by (cases "send_resume env name message settled st")
  obtain rs st2 where ts: "resumes env names message rest st1 = (rs, st2)"
    by (cases "resumes env names message rest st1")
  have "grows not_stage_call st st1" using send_resume_extends [of st env name message settled] t by simp
  moreover have "grows not_stage_call st1 st2" using 1 t ts by simp
  ultimately show ?case using t ts by (auto intro: grows_trans)
qed (simp_all add: grows_refl)

lemma catches_extends:
  "grows not_stage_call st (snd (catches env names settled st))"
proof (induction env names settled st rule: catches.induct)
  case (1 env name names settled rest st)
  obtain r st1 where t: "catch_failure env name settled st = (r, st1)"
    by (cases "catch_failure env name settled st")
  obtain rs st2 where ts: "catches env names rest st1 = (rs, st2)"
    by (cases "catches env names rest st1")
  have "grows not_stage_call st st1" using catch_failure_extends [of st env name settled] t by simp
  moreover have "grows not_stage_call st1 st2" using 1 t ts by simp
  ultimately show ?case using t ts by (auto intro: grows_trans)
qed (simp_all add: grows_refl)

lemma catch_failure_substitutes: "substitutes settled (fst (catch_failure env name settled st))"
  by (auto simp: substitutes_def catch_failure_result split: sum.splits)

lemma catches_slots:
  "length settled = length names \<Longrightarrow> list_all2 substitutes settled (fst (catches env names settled st))"
proof (induction names arbitrary: settled st)
  case Nil
  then show ?case by simp
next
  case (Cons n names)
  then obtain r rest where s: "settled = r # rest" and l: "length rest = length names"
    by (cases settled) auto
  obtain r' st1 where t: "catch_failure env n r st = (r', st1)" by (cases "catch_failure env n r st")
  obtain rs st2 where ts: "catches env names rest st1 = (rs, st2)" by (cases "catches env names rest st1")
  have "substitutes r r'" using catch_failure_substitutes [of r env n st] t by simp
  moreover have "list_all2 substitutes rest rs" using Cons.IH [OF l, of st1] ts by simp
  ultimately show ?case using s t ts by simp
qed

lemma catches_logs:
  "length settled = length names \<Longrightarrow> (n, Inl error) \<in> set (zip names settled) \<Longrightarrow>
     Logged (broadcast_error_text env n) error \<in> set (since st (snd (catches env names settled st)))"
proof (induction names arbitrary: settled st)
  case Nil
  then show ?case by simp
next
  case (Cons m names)
  then obtain r rest where s: "settled = r # rest" and l: "length rest = length names"
    by (cases settled) auto
  obtain r' st1 where t: "catch_failure env m r st = (r', st1)" by (cases "catch_failure env m r st")
  obtain rs st2 where ts: "catches env names rest st1 = (rs, st2)" by (cases "catches env names rest st1")
  have g1: "grows not_stage_call st st1" using catch_failure_extends [of st env m r] t by simp
  have g2: "grows not_stage_call st1 st2" using catches_extends [of st1 env names rest] ts by simp
  have sp: "since st st2 = since st st1 @ since st1 st2" using g1 g2 by (rule since_append)
  from Cons.prems(2) s have "(m = n \<and> r = Inl error) \<or> (n, Inl error) \<in> set (zip names rest)" by auto
  then show ?case
  proof
    assume "m = n \<and> r = Inl error"
    then have "Logged (broadcast_error_text env n) error \<in> set (since st st1)"
      using catch_failure_trace [of env m r st] t by (simp add: since_def)
    then show ?thesis using sp s t ts by simp
  next
    assume "(n, Inl error) \<in> set (zip names rest)"
    then have "Logged (broadcast_error_text env n) error \<in> set (since st1 st2)"
      using Cons.IH [OF l, of st1] ts by simp
    then show ?thesis using sp s t ts by simp
  qed
qed

lemma starts_length: "length (fst (starts env names message c st)) = length names"
  using starts_slots [of env message c names st] by (rule list_all2_lengthD [symmetric])

lemma broadcast_unfold:
  "broadcast env message ctx st =
     (let c = fst (default_context ctx st); st0 = snd (default_context ctx st);
          names = map_keys (plugins st);
          started = starts env names message c st0;
          settled = resumes env names message (fst started) (snd started);
          tasks = catches env names (fst settled) (snd settled)
      in (promise_all (fst tasks), snd tasks))"
  by (cases "default_context ctx st")
     (auto simp: broadcast_def Let_def default_context_def new_object_def split: prod.splits if_splits)

lemma list_all2_in_right: "list_all2 P xs ys \<Longrightarrow> y \<in> set ys \<Longrightarrow> \<exists>x \<in> set xs. P x y"
  by (induction rule: list_all2_induct) auto

lemma promise_all_rejects: "promise_all rs = Inl x \<Longrightarrow> Inl x \<in> set rs"
  by (induction rs rule: promise_all.induct) (auto split: sum.splits)

lemma promise_all_length: "promise_all rs = Inr vs \<Longrightarrow> rs = map Inr vs"
  by (induction rs arbitrary: vs rule: promise_all.induct) (auto split: sum.splits)

lemma broadcast_tasks:
  "list_all2 (\<lambda>n task'. \<exists>s. substitutes (fst (send env n message (fst (default_context ctx st)) s)) task')
     (map_keys (plugins st))
     (fst (catches env (map_keys (plugins st))
        (fst (starts env (map_keys (plugins st)) message (fst (default_context ctx st)) (snd (default_context ctx st))))
        st'))"
proof -
  let ?c = "fst (default_context ctx st)"
  let ?names = "map_keys (plugins st)"
  let ?started = "fst (starts env ?names message ?c (snd (default_context ctx st)))"
  have 1: "list_all2 (\<lambda>n r. \<exists>s. fst (send env n message ?c s) = r) ?names ?started"
    by (rule starts_slots)
  have 2: "list_all2 substitutes ?started (fst (catches env ?names ?started st'))"
    by (intro catches_slots starts_length)
  show ?thesis
    using 1 2 by (rule list_all2_trans [rotated]) auto
qed

lemma broadcast_result:
  "fst (broadcast env message ctx st) =
     promise_all (fst (catches env (map_keys (plugins st))
        (fst (starts env (map_keys (plugins st)) message (fst (default_context ctx st)) (snd (default_context ctx st))))
        (snd (resumes env (map_keys (plugins st)) message
           (fst (starts env (map_keys (plugins st)) message (fst (default_context ctx st)) (snd (default_context ctx st))))
           (snd (starts env (map_keys (plugins st)) message (fst (default_context ctx st)) (snd (default_context ctx st))))))))"
  by (simp add: broadcast_unfold Let_def resumes_outcomes starts_length)

lemma broadcast_slots:
  assumes "fst (broadcast env message ctx st) = Inr slots"
  shows "list_all2
           (\<lambda>n v. \<exists>s. fst (send env n message (fst (default_context ctx st)) s) = Inr v
                     \<or> (\<exists>e text r. fst (send env n message (fst (default_context ctx st)) s) = Inl e
                          \<and> error_message e = Inr text \<and> v = VObj r [(''error'', text)]))
           (map_keys (plugins st)) slots"
proof -
  let ?c = "fst (default_context ctx st)"
  obtain tasks where t: "promise_all tasks = Inr slots"
    and l: "list_all2 (\<lambda>n task'. \<exists>s. substitutes (fst (send env n message ?c s)) task') (map_keys (plugins st)) tasks"
    using assms broadcast_tasks [of env message ctx st] by (auto simp: broadcast_result)
  have "tasks = map Inr slots" using t by (rule promise_all_length)
  then have "list_all2 (\<lambda>n v. \<exists>s. substitutes (fst (send env n message ?c s)) (Inr v)) (map_keys (plugins st)) slots"
    using l by (simp add: list_all2_map2)
  then show ?thesis
  proof (rule list_all2_mono)
    fix n v
    assume "\<exists>s. substitutes (fst (send env n message ?c s)) (Inr v)"
    then obtain s where s: "substitutes (fst (send env n message ?c s)) (Inr v)" by blast
    show "\<exists>s. fst (send env n message ?c s) = Inr v
              \<or> (\<exists>e text r. fst (send env n message ?c s) = Inl e
                   \<and> error_message e = Inr text \<and> v = VObj r [(''error'', text)])"
    proof (cases "fst (send env n message ?c s)")
      case (Inr response)
      then show ?thesis using s by (auto simp: substitutes_def)
    next
      case (Inl e)
      then show ?thesis using s by (cases "error_message e") (auto simp: substitutes_def)
    qed
  qed
qed

lemma broadcast_rejection_origin:
  assumes "fst (broadcast env message ctx st) = Inl x"
  shows "\<exists>n \<in> set (map_keys (plugins st)). \<exists>s.
           fst (send env n message (fst (default_context ctx st)) s) = Inl (Thrown VUndefined)
           \<or> fst (send env n message (fst (default_context ctx st)) s) = Inl (Thrown VNull)"
proof -
  let ?c = "fst (default_context ctx st)"
  obtain tasks where t: "promise_all tasks = Inl x"
    and l: "list_all2 (\<lambda>n task'. \<exists>s. substitutes (fst (send env n message ?c s)) task') (map_keys (plugins st)) tasks"
    using assms broadcast_tasks [of env message ctx st] by (auto simp: broadcast_result)
  have "Inl x \<in> set tasks" using t by (rule promise_all_rejects)
  then obtain n s where n: "n \<in> set (map_keys (plugins st))"
    and s: "substitutes (fst (send env n message ?c s)) (Inl x)"
    using list_all2_in_right [OF l] by blast
  then obtain e where "fst (send env n message ?c s) = Inl e" and "error_message e = Inl x"
    by (cases "fst (send env n message ?c s)") (auto simp: substitutes_def split: sum.splits)
  then show ?thesis using n error_message_failure by blast
qed

lemma broadcast_isolates:
  assumes "\<And>n s. fst (send env n message (fst (default_context ctx st)) s) \<noteq> Inl (Thrown VUndefined)
                \<and> fst (send env n message (fst (default_context ctx st)) s) \<noteq> Inl (Thrown VNull)"
  shows "\<exists>slots. fst (broadcast env message ctx st) = Inr slots \<and> length slots = length (plugins st)"
proof (cases "fst (broadcast env message ctx st)")
  case (Inl x)
  then show ?thesis using broadcast_rejection_origin [OF Inl] assms by blast
next
  case (Inr slots)
  then have "length (map_keys (plugins st)) = length slots"
    using broadcast_slots [OF Inr] by (simp add: list_all2_lengthD)
  then show ?thesis using Inr by (simp add: map_keys_def)
qed

lemma broadcast_example:
  "fst (broadcast example_env (VStr ''hi'') VUndefined (example_state [])) =
     Inr [VStr ''hi'', VObj (BridgeRef 2) [(''error'', VStr ''boom'')]]"
  by (simp add: broadcast_def send_start_def send_resume_def catch_failure_def map_keys_def example_simps)

lemma registered_function:
  assumes "n \<in> set (map_keys (plugins st))" and "typeof (the_handler st n) = TFunction"
  shows "\<exists>h. map_get (plugins st) n = Some (VFun h)"
proof -
  obtain v where v: "map_of (plugins st) n = Some v"
    using assms(1) by (cases "map_of (plugins st) n") (auto simp: map_keys_def map_of_eq_None_iff)
  then have "typeof v = TFunction" using assms(2) by (simp add: the_handler_def map_get_def)
  then show ?thesis using v by (cases v) (auto simp: map_get_def)
qed

lemma broadcast_phases:
  "\<exists>es. since st (snd (broadcast env message ctx st)) =
          since (snd (default_context ctx st))
            (snd (starts env (map_keys (plugins st)) message (fst (default_context ctx st)) (snd (default_context ctx st))))
          @ es
        \<and> list_all not_stage_call es"
proof -
  let ?c = "fst (default_context ctx st)"
  let ?st0 = "snd (default_context ctx st)"
  let ?names = "map_keys (plugins st)"
  let ?st1 = "snd (starts env ?names message ?c ?st0)"
  let ?started = "fst (starts env ?names message ?c ?st0)"
  let ?st2 = "snd (resumes env ?names message ?started ?st1)"
  let ?st3 = "snd (catches env ?names (fst (resumes env ?names message ?started ?st1)) ?st2)"
  have b: "snd (broadcast env message ctx st) = ?st3" by (simp add: broadcast_unfold Let_def)
  have g1: "grows (carries message ?c) ?st0 ?st1" using default_context_defined by (rule starts_carries)
  have g2: "grows not_stage_call ?st1 ?st2" by (rule resumes_extends)
  have g3: "grows not_stage_call ?st2 ?st3" by (rule catches_extends)
  have g23: "grows not_stage_call ?st1 ?st3" using g2 g3 by (rule grows_trans)
  have "since ?st0 ?st3 = since ?st0 ?st1 @ since ?st1 ?st3" using g1 g23 by (rule since_append)
  moreover have "list_all not_stage_call (since ?st1 ?st3)" using g23 by (simp add: since_def grows_since)
  ultimately show ?thesis by (simp add: b since_default_context)
qed

lemma carries_not_stage_call: "not_stage_call e \<Longrightarrow> carries message c e"
  by (cases e) (simp_all add: carries_def not_stage_call_def is_stage_call_def)

section \<open>The claims\<close>

text \<open>
  Claim C1. With the handler \<open>H\<close> registered under the name, \<^verbatim>\<open>send\<close> calls the stages
  in registration order: when every middleware of the chain calls \<^verbatim>\<open>next\<close> once, the stage
  calls recorded are the middlewares in the order of the chain, then \<open>H\<close>. When a middleware
  returns without calling \<^verbatim>\<open>next\<close>, the stage calls end with it: no later middleware and
  not \<open>H\<close> is called. With no middleware the composed pipeline is the terminal, the call
  \<^verbatim>\<open>handler(message, context)\<close>, and \<^verbatim>\<open>send\<close> answers what that call answers.
\<close>

theorem send_invocation_order:
  assumes "map_get (plugins st) name = Some (VFun h)"
  shows
    "((\<forall>m \<in> set (middlewares st). passes_on env m message (fst (default_context ctx st))) \<longrightarrow>
        filter is_stage_call (trace (snd (send env name message ctx st))) =
          filter is_stage_call (trace st)
            @ map (\<lambda>m. MiddlewareCalled m message (fst (default_context ctx st))) (middlewares st)
            @ [HandlerCalled (VFun h) message (fst (default_context ctx st))])
     \<and> (\<forall>pre m post.
          middlewares st = pre @ m # post
          \<and> (\<forall>p \<in> set pre. passes_on env p message (fst (default_context ctx st)))
          \<and> short_circuits env m message (fst (default_context ctx st)) \<longrightarrow>
          filter is_stage_call (trace (snd (send env name message ctx st))) =
            filter is_stage_call (trace st)
              @ map (\<lambda>m. MiddlewareCalled m message (fst (default_context ctx st))) (pre @ [m]))
     \<and> compose env [] message (fst (default_context ctx st))
          (terminal env (VFun h) message (fst (default_context ctx st)))
         = terminal env (VFun h) message (fst (default_context ctx st))
     \<and> (middlewares st = [] \<longrightarrow>
          fst (send env name message ctx st) =
            fst (call_handler env (VFun h) message (fst (default_context ctx st))
                   (snd (default_context ctx st))))"
proof -
  let ?st0 = "snd (default_context ctx st)"
  let ?ctx = "fst (default_context ctx st)"
  let ?MC = "\<lambda>m. MiddlewareCalled m message ?ctx"
  have has: "map_has (plugins st) name" using assms by (simp add: map_has_def map_get_def)
  have h: "the_handler ?st0 name = VFun h" using assms by (simp add: the_handler_def)
  have pl: "pipeline_of env ?st0 name message ?ctx =
              compose env (middlewares st) message ?ctx (terminal env (VFun h) message ?ctx)"
    by (simp add: pipeline_of_def h)
  have 1: "filter is_stage_call (trace (snd (send env name message ctx st))) =
          filter is_stage_call (trace st) @ map ?MC (middlewares st) @ [HandlerCalled (VFun h) message ?ctx]"
    if a: "\<forall>m \<in> set (middlewares st). passes_on env m message ?ctx"
  proof -
    have "trace (snd (compose env (middlewares st) message ?ctx (terminal env (VFun h) message ?ctx) [] ?st0)) =
            trace ?st0 @ map ?MC (middlewares st) @ [HandlerCalled (VFun h) message ?ctx]"
      using terminal_trace a by (rule compose_passes_on_trace)
    then show ?thesis
      by (simp add: send_stage_calls [OF has] pl stage_calls_map is_stage_call_def)
  qed
  have 2: "filter is_stage_call (trace (snd (send env name message ctx st))) =
            filter is_stage_call (trace st) @ map ?MC (pre @ [m])"
    if a: "middlewares st = pre @ m # post" and b: "\<forall>p \<in> set pre. passes_on env p message ?ctx"
      and c: "short_circuits env m message ?ctx" for pre m post
  proof -
    let ?rest = "compose env (m # post) message ?ctx (terminal env (VFun h) message ?ctx)"
    have "\<And>args s. trace (snd (?rest args s)) = trace s @ [?MC m]"
      using c by (rule short_circuit_trace)
    then have "trace (snd (compose env pre message ?ctx ?rest [] ?st0)) = trace ?st0 @ map ?MC pre @ [?MC m]"
      using b by (rule compose_passes_on_trace)
    then show ?thesis
      by (simp add: send_stage_calls [OF has] pl a compose_append stage_calls_map is_stage_call_def)
  qed
  have 3: "compose env [] message ?ctx (terminal env (VFun h) message ?ctx) = terminal env (VFun h) message ?ctx"
    by (simp add: compose_def)
  have 4: "fst (send env name message ctx st) = fst (call_handler env (VFun h) message ?ctx ?st0)"
    if "middlewares st = []"
    using that by (simp add: send_registered [OF has] pl compose_def terminal_def split: prod.splits sum.splits)
  show ?thesis using 1 2 3 4 by blast
qed

theorem send_invocation_order_witness:
  "map_get (plugins (example_state [VFun 10, VFun 11])) (VStr ''echo'') = Some (VFun 0)
   \<and> middlewares (example_state [VFun 10, VFun 11]) = [VFun 10, VFun 11]
   \<and> passes_on example_env (VFun 10) (VStr ''hi'') VNull
   \<and> passes_on example_env (VFun 11) (VStr ''hi'') VNull
   \<and> filter is_stage_call (trace (snd (send example_env (VStr ''echo'') (VStr ''hi'') VNull (example_state [VFun 10, VFun 11])))) =
       [MiddlewareCalled (VFun 10) (VStr ''hi'') VNull, MiddlewareCalled (VFun 11) (VStr ''hi'') VNull,
        HandlerCalled (VFun 0) (VStr ''hi'') VNull]
   \<and> short_circuits example_env (VFun 12) (VStr ''hi'') VNull
   \<and> filter is_stage_call (trace (snd (send example_env (VStr ''echo'') (VStr ''hi'') VNull (example_state [VFun 10, VFun 12, VFun 11])))) =
       [MiddlewareCalled (VFun 10) (VStr ''hi'') VNull, MiddlewareCalled (VFun 12) (VStr ''hi'') VNull]
   \<and> fst (send example_env (VStr ''echo'') (VStr ''hi'') VNull (example_state [])) = Inr (VStr ''hi'')"
proof -
  have c: "fst (default_context VNull st) = VNull" for st :: "nat state"
    by (simp add: default_context_def)
  have h: "map_get (plugins (example_state ms)) (VStr ''echo'') = Some (VFun 0)" for ms
    by (simp add: example_state_def map_get_def)
  have p: "\<forall>m \<in> set (middlewares (example_state [VFun 10, VFun 11])).
             passes_on example_env m (VStr ''hi'') (fst (default_context VNull (example_state [VFun 10, VFun 11])))"
    by (simp add: c example_state_def example_env_def passes_on_def)
  have s: "short_circuits example_env (VFun 12) (VStr ''hi'') VNull"
    by (simp add: example_env_def short_circuits_def)
  have q: "middlewares (example_state [VFun 10, VFun 12, VFun 11]) = [VFun 10] @ VFun 12 # [VFun 11]
     \<and> (\<forall>p \<in> set [VFun 10]. passes_on example_env p (VStr ''hi'')
            (fst (default_context VNull (example_state [VFun 10, VFun 12, VFun 11]))))
     \<and> short_circuits example_env (VFun 12) (VStr ''hi'')
            (fst (default_context VNull (example_state [VFun 10, VFun 12, VFun 11])))"
    by (simp add: c example_state_def example_env_def passes_on_def short_circuits_def)
  have e: "middlewares (example_state []) = []"
    by (simp add: example_state_def)
  note t = send_invocation_order [OF h, where env = example_env and message = "VStr ''hi''" and ctx = VNull]
  from t [THEN conjunct1, THEN mp, OF p]
  have 1: "filter is_stage_call (trace (snd (send example_env (VStr ''echo'') (VStr ''hi'') VNull (example_state [VFun 10, VFun 11])))) =
       [MiddlewareCalled (VFun 10) (VStr ''hi'') VNull, MiddlewareCalled (VFun 11) (VStr ''hi'') VNull,
        HandlerCalled (VFun 0) (VStr ''hi'') VNull]"
    by (simp add: c) (simp add: example_state_def)
  from t [THEN conjunct2, THEN conjunct1, THEN spec, THEN spec, THEN spec, THEN mp, OF q]
  have 2: "filter is_stage_call (trace (snd (send example_env (VStr ''echo'') (VStr ''hi'') VNull (example_state [VFun 10, VFun 12, VFun 11])))) =
       [MiddlewareCalled (VFun 10) (VStr ''hi'') VNull, MiddlewareCalled (VFun 12) (VStr ''hi'') VNull]"
    by (simp add: c) (simp add: example_state_def)
  from t [THEN conjunct2, THEN conjunct2, THEN conjunct2, THEN mp, OF e]
  have 3: "fst (send example_env (VStr ''echo'') (VStr ''hi'') VNull (example_state [])) = Inr (VStr ''hi'')"
    by (simp add: c call_handler_def example_env_def Let_def)
  have p': "middlewares (example_state [VFun 10, VFun 11]) = [VFun 10, VFun 11]
      \<and> passes_on example_env (VFun 10) (VStr ''hi'') VNull
      \<and> passes_on example_env (VFun 11) (VStr ''hi'') VNull"
    using p by (simp add: c example_state_def)
  show ?thesis using h p' s 1 2 3 by blast
qed

text \<open>
  Claim C2. The claim holds for every failure whose \<^verbatim>\<open>message\<close> can be read
  (\<open>broadcast_slots\<close>, \<open>broadcast_isolates\<close>, \<open>catches_logs\<close>). It fails for a target that
  throws, or rejects with, \<^verbatim>\<open>null\<close> or \<^verbatim>\<open>undefined\<close>: the \<^verbatim>\<open>.catch\<close> handler logs
  the failure and then evaluates \<^verbatim>\<open>error.message\<close>, which raises a \<open>TypeError\<close>; the
  task rejects and so does the broadcast. Here the second of two plugins throws
  \<^verbatim>\<open>null\<close>: the first plugin is called and answers, the failure of the second is logged,
  and the broadcast fails instead of resolving with two slots.
\<close>

theorem broadcast_rejects_on_null_failure:
  "map_keys (plugins failing_state) = [VStr ''echo'', VStr ''null'']
   \<and> fst (send example_env (VStr ''null'') (VStr ''hi'') VUndefined failing_state) = Inl (Thrown VNull)
   \<and> fst (broadcast example_env (VStr ''hi'') VUndefined failing_state) =
        Inl (TypeError ''Cannot read properties of null (reading message)'')
   \<and> filter (\<lambda>e. \<not> is_emitted (VStr ''plugin:message'') e)
        (trace (snd (broadcast example_env (VStr ''hi'') VUndefined failing_state))) =
        [HandlerCalled (VFun 0) (VStr ''hi'') (VObj (BridgeRef 0) []),
         HandlerCalled (VFun 2) (VStr ''hi'') (VObj (BridgeRef 0) []),
         Logged (''Broadcast error for plugin '' @ [CHR 0x22] @ ''null'' @ [CHR 0x22] @ '':'') (Thrown VNull)]"
  by (simp add: broadcast_def send_start_def send_resume_def catch_failure_def map_keys_def failing_state_def
        broadcast_error_text_def example_simps)

text \<open>
  Claim C3. For a registered name: when the pipeline resolves with a response, \<^verbatim>\<open>send\<close>
  returns that response and has emitted \<^verbatim>\<open>plugin:message\<close> exactly once, with the payload
  \<^verbatim>\<open>{name, message, response}\<close>; when the pipeline fails, \<^verbatim>\<open>send\<close> fails with the
  same failure, nothing was caught, and no event was emitted.
\<close>

theorem send_emits_once:
  assumes "map_has (plugins st) name"
  shows
    "(\<forall>response st1.
        pipeline_of env (snd (default_context ctx st)) name message (fst (default_context ctx st)) []
          (snd (default_context ctx st)) = (Inr response, st1) \<longrightarrow>
        fst (send env name message ctx st) = Inr response
        \<and> filter (is_emitted (VStr ''plugin:message'')) (trace (snd (send env name message ctx st))) =
            filter (is_emitted (VStr ''plugin:message'')) (trace st)
              @ [Emitted (VStr ''plugin:message'')
                   (VObj (BridgeRef (created st1))
                      [(''name'', name), (''message'', message), (''response'', response)])])
     \<and> (\<forall>error st1.
        pipeline_of env (snd (default_context ctx st)) name message (fst (default_context ctx st)) []
          (snd (default_context ctx st)) = (Inl error, st1) \<longrightarrow>
        send env name message ctx st = (Inl error, st1)
        \<and> (\<forall>ev. filter (is_emitted ev) (trace st1) = filter (is_emitted ev) (trace st)))"
proof (intro conjI allI impI)
  fix response st1
  assume p: "pipeline_of env (snd (default_context ctx st)) name message (fst (default_context ctx st)) []
          (snd (default_context ctx st)) = (Inr response, st1)"
  show "fst (send env name message ctx st) = Inr response"
    using p by (simp add: send_registered [OF assms])
  have "filter (is_emitted (VStr ''plugin:message'')) (trace st1) = filter (is_emitted (VStr ''plugin:message'')) (trace st)"
    using pipeline_emissions [of "VStr ''plugin:message''" env "snd (default_context ctx st)" name message
        "fst (default_context ctx st)" "[]" "snd (default_context ctx st)"] p
    by simp
  then show "filter (is_emitted (VStr ''plugin:message'')) (trace (snd (send env name message ctx st))) =
            filter (is_emitted (VStr ''plugin:message'')) (trace st)
              @ [Emitted (VStr ''plugin:message'')
                   (VObj (BridgeRef (created st1))
                      [(''name'', name), (''message'', message), (''response'', response)])]"
    using p by (simp add: send_registered [OF assms] emit_emissions)
next
  fix error st1
  assume p: "pipeline_of env (snd (default_context ctx st)) name message (fst (default_context ctx st)) []
          (snd (default_context ctx st)) = (Inl error, st1)"
  show "send env name message ctx st = (Inl error, st1)"
    using p by (simp add: send_registered [OF assms])
  fix ev
  show "filter (is_emitted ev) (trace st1) = filter (is_emitted ev) (trace st)"
    using pipeline_emissions [of ev env "snd (default_context ctx st)" name message
        "fst (default_context ctx st)" "[]" "snd (default_context ctx st)"] p
    by simp
qed

theorem send_emits_once_witness:
  "map_has (plugins (example_state [VFun 10])) (VStr ''echo'')
   \<and> fst (send example_env (VStr ''echo'') (VStr ''hi'') VNull (example_state [VFun 10])) = Inr (VStr ''hi'')
   \<and> filter (is_emitted (VStr ''plugin:message'')) (trace (snd (send example_env (VStr ''echo'') (VStr ''hi'') VNull (example_state [VFun 10])))) =
       [Emitted (VStr ''plugin:message'')
          (VObj (BridgeRef 0) [(''name'', VStr ''echo''), (''message'', VStr ''hi''), (''response'', VStr ''hi'')])]
   \<and> map_has (plugins (example_state [VFun 10])) (VStr ''fail'')
   \<and> fst (send example_env (VStr ''fail'') (VStr ''hi'') VNull (example_state [VFun 10])) =
        Inl (Thrown (VObj (AppRef 0) [(''message'', VStr ''boom'')]))
   \<and> filter (is_emitted (VStr ''plugin:message'')) (trace (snd (send example_env (VStr ''fail'') (VStr ''hi'') VNull (example_state [VFun 10])))) = []"
proof -
  have h1: "map_has (plugins (example_state [VFun 10])) (VStr ''echo'')"
    and h2: "map_has (plugins (example_state [VFun 10])) (VStr ''fail'')"
    by (simp_all add: example_state_def map_has_def)
  have p1: "pipeline_of example_env (snd (default_context VNull (example_state [VFun 10]))) (VStr ''echo'') (VStr ''hi'')
         (fst (default_context VNull (example_state [VFun 10]))) [] (snd (default_context VNull (example_state [VFun 10])))
       = (Inr (VStr ''hi''), (example_state [VFun 10])\<lparr>trace := [MiddlewareCalled (VFun 10) (VStr ''hi'') VNull,
             HandlerCalled (VFun 0) (VStr ''hi'') VNull], user := 1\<rparr>)"
    by (simp add: example_simps)
  have p2: "pipeline_of example_env (snd (default_context VNull (example_state [VFun 10]))) (VStr ''fail'') (VStr ''hi'')
         (fst (default_context VNull (example_state [VFun 10]))) [] (snd (default_context VNull (example_state [VFun 10])))
       = (Inl (Thrown (VObj (AppRef 0) [(''message'', VStr ''boom'')])),
          (example_state [VFun 10])\<lparr>trace := [MiddlewareCalled (VFun 10) (VStr ''hi'') VNull,
             HandlerCalled (VFun 1) (VStr ''hi'') VNull]\<rparr>)"
    by (simp add: example_simps)
  from send_emits_once [OF h1, where env = example_env and message = "VStr ''hi''" and ctx = VNull, THEN conjunct1, rule_format, OF p1]
  have 1: "fst (send example_env (VStr ''echo'') (VStr ''hi'') VNull (example_state [VFun 10])) = Inr (VStr ''hi'')
     \<and> filter (is_emitted (VStr ''plugin:message'')) (trace (snd (send example_env (VStr ''echo'') (VStr ''hi'') VNull (example_state [VFun 10])))) =
       [Emitted (VStr ''plugin:message'')
          (VObj (BridgeRef 0) [(''name'', VStr ''echo''), (''message'', VStr ''hi''), (''response'', VStr ''hi'')])]"
    by (simp add: example_state_def)
  from send_emits_once [OF h2, where env = example_env and message = "VStr ''hi''" and ctx = VNull, THEN conjunct2, rule_format, OF p2]
  have 2: "fst (send example_env (VStr ''fail'') (VStr ''hi'') VNull (example_state [VFun 10])) =
        Inl (Thrown (VObj (AppRef 0) [(''message'', VStr ''boom'')]))
   \<and> filter (is_emitted (VStr ''plugin:message'')) (trace (snd (send example_env (VStr ''fail'') (VStr ''hi'') VNull (example_state [VFun 10])))) = []"
    by (simp add: example_state_def is_emitted_def)
  show ?thesis using h1 h2 1 2 by blast
qed

text \<open>
  Claim C4. \<^verbatim>\<open>send\<close> to a name that is not registered fails with \<open>UnknownPlugin\<close>; the
  trace is unchanged, so no \<^verbatim>\<open>plugin:message\<close> was emitted and no middleware, handler or
  listener was called, and neither the application's state nor the bridge changed.
\<close>

theorem send_unknown_plugin:
  assumes "\<not> map_has (plugins st) name"
  shows "(\<exists>text. send env name message ctx st =
            (Inl (BridgeError UnknownPlugin text), snd (default_context ctx st)))
    \<and> trace (snd (send env name message ctx st)) = trace st
    \<and> user (snd (send env name message ctx st)) = user st
    \<and> plugins (snd (send env name message ctx st)) = plugins st
    \<and> middlewares (snd (send env name message ctx st)) = middlewares st
    \<and> listeners (snd (send env name message ctx st)) = listeners st"
  using assms
  by (auto simp: send_def default_context_def new_object_def Let_def split: prod.splits)

theorem send_unknown_plugin_witness:
  "\<not> map_has (plugins (example_state [VFun 10])) (VStr ''nobody'')
   \<and> send example_env (VStr ''nobody'') (VStr ''hi'') VNull (example_state [VFun 10]) =
       (Inl (BridgeError UnknownPlugin (''Plugin '' @ [CHR 0x22] @ ''nobody'' @ [CHR 0x22] @ '' is not registered.'')),
        example_state [VFun 10])"
  using send_unknown_plugin [where st = "example_state [VFun 10]" and name = "VStr ''nobody''" and env = example_env
      and message = "VStr ''hi''" and ctx = VNull]
  by (simp add: example_simps)

text \<open>
  Claim C5. \<^verbatim>\<open>registerPlugin\<close> fails with \<open>InvalidArgument\<close> when the name is not a
  non-empty string or the handler is not a function, and with \<open>DuplicatePlugin\<close> when the
  name is already registered. Whenever it fails, the state is the one it was called in.
  After a registration has succeeded, registering the same name again fails (with
  \<open>DuplicatePlugin\<close> for any function) without a change of state, and the handler of the name
  is still the first one.
\<close>

theorem registerPlugin_failures:
  "((\<not> (\<exists>s. s \<noteq> [] \<and> name = VStr s) \<or> \<not> (\<exists>f. handler = VFun f)) \<longrightarrow>
      (\<exists>text. registerPlugin env name handler st = (Inl (BridgeError InvalidArgument text), st)))
   \<and> ((\<exists>s. s \<noteq> [] \<and> name = VStr s) \<and> (\<exists>f. handler = VFun f) \<and> map_has (plugins st) name \<longrightarrow>
      (\<exists>text. registerPlugin env name handler st = (Inl (BridgeError DuplicatePlugin text), st)))
   \<and> (\<forall>e. fst (registerPlugin env name handler st) = Inl e \<longrightarrow>
      snd (registerPlugin env name handler st) = st)
   \<and> (fst (registerPlugin env name handler st) = Inr () \<longrightarrow>
      (\<forall>second. \<exists>text.
         registerPlugin env name second (snd (registerPlugin env name handler st)) =
           (Inl (if typeof second = TFunction then BridgeError DuplicatePlugin text
                 else BridgeError InvalidArgument text),
            snd (registerPlugin env name handler st)))
      \<and> map_get (plugins (snd (registerPlugin env name handler st))) name = Some handler)"
proof (intro conjI impI allI)
  assume "\<not> (\<exists>s. s \<noteq> [] \<and> name = VStr s) \<or> \<not> (\<exists>f. handler = VFun f)"
  then have "falsy name \<or> typeof name \<noteq> TString \<or> typeof handler \<noteq> TFunction"
    using non_empty_string [of name] is_function [of handler] by blast
  then show "\<exists>text. registerPlugin env name handler st = (Inl (BridgeError InvalidArgument text), st)"
    by (auto simp: registerPlugin_def)
next
  assume "(\<exists>s. s \<noteq> [] \<and> name = VStr s) \<and> (\<exists>f. handler = VFun f) \<and> map_has (plugins st) name"
  then have "\<not> falsy name" "typeof name = TString" "typeof handler = TFunction" "map_has (plugins st) name"
    by auto
  then show "\<exists>text. registerPlugin env name handler st = (Inl (BridgeError DuplicatePlugin text), st)"
    by (simp add: registerPlugin_def)
next
  fix e
  assume "fst (registerPlugin env name handler st) = Inl e"
  then show "snd (registerPlugin env name handler st) = st"
    by (auto simp: registerPlugin_def new_object_def Let_def split: if_splits)
next
  fix second
  assume a: "fst (registerPlugin env name handler st) = Inr ()"
  let ?st1 = "snd (registerPlugin env name handler st)"
  have "map_has (plugins ?st1) name" "\<not> falsy name" "typeof name = TString"
    using registerPlugin_success [OF a] by (simp_all add: map_has_map_set)
  then show "\<exists>text. registerPlugin env name second ?st1 =
           (Inl (if typeof second = TFunction then BridgeError DuplicatePlugin text
                 else BridgeError InvalidArgument text), ?st1)"
    by (simp add: registerPlugin_def)
next
  assume a: "fst (registerPlugin env name handler st) = Inr ()"
  show "map_get (plugins (snd (registerPlugin env name handler st))) name = Some handler"
    using registerPlugin_success [OF a] by (simp add: map_get_map_set)
qed

theorem registerPlugin_failures_witness:
  "registerPlugin example_env (VNum 7) (VFun 0) (example_state []) =
      (Inl (BridgeError InvalidArgument ''Plugin name must be a non-empty string.''), example_state [])
   \<and> registerPlugin example_env (VStr '''') (VFun 0) (example_state []) =
      (Inl (BridgeError InvalidArgument ''Plugin name must be a non-empty string.''), example_state [])
   \<and> registerPlugin example_env (VStr ''new'') (VStr ''not a function'') (example_state []) =
      (Inl (BridgeError InvalidArgument ''Plugin handler must be a function.''), example_state [])
   \<and> map_has (plugins (example_state [])) (VStr ''echo'')
   \<and> registerPlugin example_env (VStr ''echo'') (VFun 1) (example_state []) =
      (Inl (BridgeError DuplicatePlugin (''Plugin '' @ [CHR 0x22] @ ''echo'' @ [CHR 0x22] @ '' is already registered.'')),
       example_state [])
   \<and> fst (registerPlugin example_env (VStr ''new'') (VFun 0) (example_state [])) = Inr ()
   \<and> fst (registerPlugin example_env (VStr ''new'') (VFun 1)
            (snd (registerPlugin example_env (VStr ''new'') (VFun 0) (example_state [])))) =
        Inl (BridgeError DuplicatePlugin (''Plugin '' @ [CHR 0x22] @ ''new'' @ [CHR 0x22] @ '' is already registered.''))
   \<and> map_get (plugins (snd (registerPlugin example_env (VStr ''new'') (VFun 0) (example_state [])))) (VStr ''new'') =
        Some (VFun 0)"
proof -
  have ok: "fst (registerPlugin example_env (VStr ''new'') (VFun 0) (example_state [])) = Inr ()"
    by (simp add: registerPlugin_def example_state_def map_has_def new_object_def Let_def)
  have dup: "map_has (plugins (example_state [])) (VStr ''echo'')"
    by (simp add: example_state_def map_has_def)
  note t = registerPlugin_failures [where env = example_env and st = "example_state []"]
  from t [where name = "VNum 7" and handler = "VFun 0", THEN conjunct1]
  have 1: "registerPlugin example_env (VNum 7) (VFun 0) (example_state []) =
      (Inl (BridgeError InvalidArgument ''Plugin name must be a non-empty string.''), example_state [])"
    by (simp add: registerPlugin_def)
  from t [where name = "VStr ''''" and handler = "VFun 0", THEN conjunct1]
  have 2: "registerPlugin example_env (VStr '''') (VFun 0) (example_state []) =
      (Inl (BridgeError InvalidArgument ''Plugin name must be a non-empty string.''), example_state [])"
    by (simp add: registerPlugin_def)
  from t [where name = "VStr ''new''" and handler = "VStr ''not a function''", THEN conjunct1]
  have 3: "registerPlugin example_env (VStr ''new'') (VStr ''not a function'') (example_state []) =
      (Inl (BridgeError InvalidArgument ''Plugin handler must be a function.''), example_state [])"
    by (simp add: registerPlugin_def)
  from t [where name = "VStr ''echo''" and handler = "VFun 1", THEN conjunct2, THEN conjunct1] dup
  have 4: "registerPlugin example_env (VStr ''echo'') (VFun 1) (example_state []) =
      (Inl (BridgeError DuplicatePlugin (''Plugin '' @ [CHR 0x22] @ ''echo'' @ [CHR 0x22] @ '' is already registered.'')),
       example_state [])"
    by (simp add: registerPlugin_def template_def)
  from t [where name = "VStr ''new''" and handler = "VFun 0", THEN conjunct2, THEN conjunct2, THEN conjunct2,
      THEN mp, OF ok]
  have 5: "fst (registerPlugin example_env (VStr ''new'') (VFun 1)
            (snd (registerPlugin example_env (VStr ''new'') (VFun 0) (example_state [])))) =
        Inl (BridgeError DuplicatePlugin (''Plugin '' @ [CHR 0x22] @ ''new'' @ [CHR 0x22] @ '' is already registered.''))
     \<and> map_get (plugins (snd (registerPlugin example_env (VStr ''new'') (VFun 0) (example_state [])))) (VStr ''new'') =
        Some (VFun 0)"
    by (simp add: registerPlugin_def template_def new_object_def Let_def example_state_def map_has_def map_get_def)
  show ?thesis using ok dup 1 2 3 4 5 by blast
qed

text \<open>
  Claim C6, as the code has it. A wrapper of the pipeline takes no parameters, so what a
  stage passes to \<^verbatim>\<open>next\<close> is dropped: the pipeline and every continuation in it do the
  same whatever they are called with, and every middleware and the handler that
  \<^verbatim>\<open>send\<close> calls get the message and the context of the call of \<^verbatim>\<open>send\<close> (its default
  context when none was given).
\<close>

theorem next_arguments_ignored:
  "compose env ms message c (terminal env h message c) args =
     compose env ms message c (terminal env h message c) args'
   \<and> run_middleware (CallNext args k) (compose env ms message c (terminal env h message c)) st =
     run_middleware (CallNext args' k) (compose env ms message c (terminal env h message c)) st
   \<and> (map_has (plugins st) name \<longrightarrow>
        list_all (\<lambda>e. is_stage_call e \<longrightarrow>
                    stage_of (middlewares st) (the_handler st name) message (fst (default_context ctx st)) e)
          (drop (length (trace st)) (trace (snd (send env name message ctx st)))))"
proof (intro conjI impI)
  show "compose env ms message c (terminal env h message c) args =
     compose env ms message c (terminal env h message c) args'"
    by (rule compose_ignores_arguments)
  then show "run_middleware (CallNext args k) (compose env ms message c (terminal env h message c)) st =
     run_middleware (CallNext args' k) (compose env ms message c (terminal env h message c)) st"
    by simp
next
  assume "map_has (plugins st) name"
  then show "list_all (\<lambda>e. is_stage_call e \<longrightarrow>
                    stage_of (middlewares st) (the_handler st name) message (fst (default_context ctx st)) e)
          (drop (length (trace st)) (trace (snd (send env name message ctx st))))"
    by (intro grows_since send_grows)
qed

theorem next_arguments_ignored_witness:
  "map_has (plugins (example_state [VFun 11])) (VStr ''echo'')
   \<and> middleware_of example_env 11 (VStr ''hi'') VNull =
        CallNext [VStr ''changed'', VObj (AppRef 1) [(''traced'', VBool True)]] Done
   \<and> list_all (\<lambda>e. e \<in> {MiddlewareCalled (VFun 11) (VStr ''hi'') VNull, HandlerCalled (VFun 0) (VStr ''hi'') VNull}
                  \<or> \<not> is_stage_call e)
        (trace (snd (send example_env (VStr ''echo'') (VStr ''hi'') VNull (example_state [VFun 11]))))"
proof -
  have h: "map_has (plugins (example_state [VFun 11])) (VStr ''echo'')"
    by (simp add: example_state_def map_has_def)
  have m: "middleware_of example_env 11 (VStr ''hi'') VNull =
        CallNext [VStr ''changed'', VObj (AppRef 1) [(''traced'', VBool True)]] Done"
    by (simp add: example_env_def)
  from next_arguments_ignored [where st = "example_state [VFun 11]" and name = "VStr ''echo''" and env = example_env
      and message = "VStr ''hi''" and ctx = VNull, THEN conjunct2, THEN conjunct2, THEN mp, OF h]
  have "list_all (\<lambda>e. e \<in> {MiddlewareCalled (VFun 11) (VStr ''hi'') VNull, HandlerCalled (VFun 0) (VStr ''hi'') VNull}
                  \<or> \<not> is_stage_call e)
        (trace (snd (send example_env (VStr ''echo'') (VStr ''hi'') VNull (example_state [VFun 11]))))"
    by (simp add: default_context_def the_handler_def map_get_def stage_of_def)
       (auto simp: example_state_def list_all_iff)
  with h m show ?thesis by blast
qed

theorem next_arguments_counterexample:
  "middleware_of example_env 11 (VStr ''hi'') VNull =
     CallNext [VStr ''changed'', VObj (AppRef 1) [(''traced'', VBool True)]] Done
   \<and> filter is_stage_call (trace (snd (send example_env (VStr ''echo'') (VStr ''hi'') VNull (example_state [VFun 11])))) =
       [MiddlewareCalled (VFun 11) (VStr ''hi'') VNull, HandlerCalled (VFun 0) (VStr ''hi'') VNull]
   \<and> HandlerCalled (VFun 0) (VStr ''changed'') (VObj (AppRef 1) [(''traced'', VBool True)])
        \<notin> set (trace (snd (send example_env (VStr ''echo'') (VStr ''hi'') VNull (example_state [VFun 11]))))
   \<and> fst (send example_env (VStr ''echo'') (VStr ''hi'') VNull (example_state [VFun 11])) = Inr (VStr ''hi'')"
  by (simp add: example_simps)



text \<open>
  Claim C8. \<^verbatim>\<open>unregisterPlugin\<close> of a name that is not registered returns the state it was
  called in: nothing is emitted, and the method has no failing path. For a registered name
  it removes the entry and leaves the other entries alone, a following \<^verbatim>\<open>send\<close> to the
  name fails with \<open>UnknownPlugin\<close>, and \<^verbatim>\<open>plugin:unregistered\<close> has been emitted exactly
  once, with the payload \<^verbatim>\<open>{name}\<close>.
\<close>

theorem unregisterPlugin_behaviour:
  "(\<not> map_has (plugins st) name \<longrightarrow> unregisterPlugin env name st = st)
   \<and> (map_has (plugins st) name \<longrightarrow>
        \<not> map_has (plugins (unregisterPlugin env name st)) name
        \<and> (\<forall>other. other \<noteq> name \<longrightarrow>
              map_get (plugins (unregisterPlugin env name st)) other = map_get (plugins st) other)
        \<and> (\<forall>message ctx. \<exists>text.
              fst (send env name message ctx (unregisterPlugin env name st)) = Inl (BridgeError UnknownPlugin text))
        \<and> filter (is_emitted (VStr ''plugin:unregistered'')) (trace (unregisterPlugin env name st)) =
            filter (is_emitted (VStr ''plugin:unregistered'')) (trace st)
              @ [Emitted (VStr ''plugin:unregistered'') (VObj (BridgeRef (created st)) [(''name'', name)])])"
proof (intro conjI impI allI)
  assume "\<not> map_has (plugins st) name"
  then show "unregisterPlugin env name st = st" by (rule unregisterPlugin_absent)
next
  assume a: "map_has (plugins st) name"
  show gone: "\<not> map_has (plugins (unregisterPlugin env name st)) name"
    by (simp add: unregisterPlugin_present [OF a] map_has_def map_of_filter_key)
  show "filter (is_emitted (VStr ''plugin:unregistered'')) (trace (unregisterPlugin env name st)) =
            filter (is_emitted (VStr ''plugin:unregistered'')) (trace st)
              @ [Emitted (VStr ''plugin:unregistered'') (VObj (BridgeRef (created st)) [(''name'', name)])]"
    by (simp add: unregisterPlugin_present [OF a] emit_emissions)
  fix message ctx
  show "\<exists>text. fst (send env name message ctx (unregisterPlugin env name st)) = Inl (BridgeError UnknownPlugin text)"
    using gone by (auto simp: send_def default_context_def new_object_def Let_def split: prod.splits)
next
  fix other
  assume a: "map_has (plugins st) name" and "other \<noteq> name"
  then show "map_get (plugins (unregisterPlugin env name st)) other = map_get (plugins st) other"
    by (simp add: unregisterPlugin_present [OF a] map_get_def map_of_filter_key)
qed

theorem unregisterPlugin_behaviour_witness:
  "\<not> map_has (plugins (example_state [])) (VStr ''nobody'')
   \<and> unregisterPlugin example_env (VStr ''nobody'') (example_state []) = example_state []
   \<and> map_has (plugins (example_state [])) (VStr ''echo'')
   \<and> plugins (unregisterPlugin example_env (VStr ''echo'') (example_state [])) = [(VStr ''fail'', VFun 1)]
   \<and> fst (send example_env (VStr ''echo'') (VStr ''hi'') VNull (unregisterPlugin example_env (VStr ''echo'') (example_state []))) =
        Inl (BridgeError UnknownPlugin (''Plugin '' @ [CHR 0x22] @ ''echo'' @ [CHR 0x22] @ '' is not registered.''))
   \<and> trace (unregisterPlugin example_env (VStr ''echo'') (example_state [])) =
        [Emitted (VStr ''plugin:unregistered'') (VObj (BridgeRef 0) [(''name'', VStr ''echo'')])]"
proof -
  have a: "\<not> map_has (plugins (example_state [])) (VStr ''nobody'')"
    and p: "map_has (plugins (example_state [])) (VStr ''echo'')"
    by (simp_all add: example_state_def map_has_def)
  note t = unregisterPlugin_behaviour [where env = example_env and st = "example_state []"]
  from t [where name = "VStr ''nobody''", THEN conjunct1, THEN mp, OF a]
  have 1: "unregisterPlugin example_env (VStr ''nobody'') (example_state []) = example_state []" .
  from t [where name = "VStr ''echo''", THEN conjunct2, THEN mp, OF p]
  have 2: "plugins (unregisterPlugin example_env (VStr ''echo'') (example_state [])) = [(VStr ''fail'', VFun 1)]
    \<and> fst (send example_env (VStr ''echo'') (VStr ''hi'') VNull (unregisterPlugin example_env (VStr ''echo'') (example_state []))) =
        Inl (BridgeError UnknownPlugin (''Plugin '' @ [CHR 0x22] @ ''echo'' @ [CHR 0x22] @ '' is not registered.''))
    \<and> trace (unregisterPlugin example_env (VStr ''echo'') (example_state [])) =
        [Emitted (VStr ''plugin:unregistered'') (VObj (BridgeRef 0) [(''name'', VStr ''echo'')])]"
    by (simp add: unregisterPlugin_def map_delete_def new_object_def emit_def record_event_def
          send_def default_context_def template_def example_state_def map_has_def map_get_def Let_def)
  show ?thesis using a p 1 2 by blast
qed

text \<open>
  Claim C9, as the code has it. Subscribing a listener a second time changes nothing, and
  so does removing it a second time; after \<^verbatim>\<open>on\<close> the listener is in the set of the event,
  after \<^verbatim>\<open>off\<close> it is not, and the sets hold no value twice (the constructor's state has
  this, and \<^verbatim>\<open>on\<close> and \<^verbatim>\<open>off\<close> keep it). An emission during which no listener calls
  \<^verbatim>\<open>on\<close> for the event ends, and the listeners it calls are, in the order of the set, some
  of the functions that are in the set of the event when the emission starts: each of them
  at most once, and a listener that is not in the set then (never subscribed, or removed)
  not at all. When no listener calls \<^verbatim>\<open>off\<close> for the event either, the emission calls
  all of these functions: a subscribed function exactly once.
\<close>

theorem listener_fires_once_while_subscribed:
  "on event cb (on event cb st) = on event cb st
   \<and> off event cb (off event cb st) = off event cb st
   \<and> cb \<in> set (subscribed (on event cb st) event)
   \<and> cb \<notin> set (subscribed (off event cb st) event)
   \<and> listeners_distinct (constructor u)
   \<and> (listeners_distinct st \<longrightarrow> listeners_distinct (on event cb st) \<and> listeners_distinct (off event cb st))
   \<and> (never_subscribes subs event \<and> length (subscribed st event) \<le> fuel \<longrightarrow>
        (\<exists>st' called. emit_live fuel env subs event payload st = Some st'
           \<and> filter is_listener_call (since st st') = map (\<lambda>l. ListenerCalled l payload) called
           \<and> subseq called (filter (\<lambda>l. typeof l = TFunction) (subscribed st event))
           \<and> (listeners_distinct st \<longrightarrow> count_list (since st st') (ListenerCalled cb payload) \<le> 1)
           \<and> (cb \<notin> set (subscribed st event) \<longrightarrow> ListenerCalled cb payload \<notin> set (since st st'))))
   \<and> (leaves_alone subs event \<and> length (subscribed st event) \<le> fuel \<longrightarrow>
        (\<exists>st'. emit_live fuel env subs event payload st = Some st'
           \<and> filter is_listener_call (since st st') =
                map (\<lambda>l. ListenerCalled l payload) (filter (\<lambda>l. typeof l = TFunction) (subscribed st event))
           \<and> (listeners_distinct st \<and> cb \<in> set (subscribed st event) \<and> typeof cb = TFunction \<longrightarrow>
                count_list (since st st') (ListenerCalled cb payload) = 1)))"
proof (intro conjI impI)
  show "on event cb (on event cb st) = on event cb st" by (rule on_twice)
  show "off event cb (off event cb st) = off event cb st" by (rule off_twice)
  show "cb \<in> set (subscribed (on event cb st) event)" by (simp add: subscribed_on set_add_def)
  show "cb \<notin> set (subscribed (off event cb st) event)" by (simp add: subscribed_off set_delete_def)
  show "listeners_distinct (constructor u)" by (simp add: listeners_distinct_def constructor_def)
next
  assume "listeners_distinct st"
  then show "listeners_distinct (on event cb st)" by (rule on_listeners_distinct)
next
  assume "listeners_distinct st"
  then show "listeners_distinct (off event cb st)" by (rule off_listeners_distinct)
next
  assume a: "never_subscribes subs event \<and> length (subscribed st event) \<le> fuel"
  let ?fs = "filter (\<lambda>l. typeof l = TFunction) (subscribed st event)"
  obtain st' called where s: "emit_live fuel env subs event payload st = Some st'"
    and f: "filter is_listener_call (since st st') = map (\<lambda>l. ListenerCalled l payload) called"
    and q: "subseq called ?fs"
    using emit_live_removals [of subs event st fuel env payload] a by blast
  have c: "count_list (since st st') (ListenerCalled cb payload) = count_list called cb"
    using f by (rule count_list_listener_calls)
  have le: "count_list called cb \<le> count_list ?fs cb" using q by (rule subseq_count_list)
  have once: "count_list (since st st') (ListenerCalled cb payload) \<le> 1" if "listeners_distinct st"
  proof -
    have "count_list ?fs cb \<le> 1"
      using subscribed_distinct [OF that, of event] by (simp add: count_list_distinct)
    then show ?thesis using c le by simp
  qed
  have absent: "ListenerCalled cb payload \<notin> set (since st st')" if "cb \<notin> set (subscribed st event)"
  proof -
    have "count_list ?fs cb = 0" using that by simp
    then have "count_list (since st st') (ListenerCalled cb payload) = 0" using c le by simp
    then show ?thesis by (simp add: count_list_0_iff)
  qed
  show "\<exists>st' called. emit_live fuel env subs event payload st = Some st'
           \<and> filter is_listener_call (since st st') = map (\<lambda>l. ListenerCalled l payload) called
           \<and> subseq called (filter (\<lambda>l. typeof l = TFunction) (subscribed st event))
           \<and> (listeners_distinct st \<longrightarrow> count_list (since st st') (ListenerCalled cb payload) \<le> 1)
           \<and> (cb \<notin> set (subscribed st event) \<longrightarrow> ListenerCalled cb payload \<notin> set (since st st'))"
    using s f q once absent by blast
next
  assume a: "leaves_alone subs event \<and> length (subscribed st event) \<le> fuel"
  let ?fs = "filter (\<lambda>l. typeof l = TFunction) (subscribed st event)"
  obtain st' where s: "emit_live fuel env subs event payload st = Some st'"
    and f: "filter is_listener_call (since st st') = map (\<lambda>l. ListenerCalled l payload) ?fs"
    using emit_live_calls [of subs event st fuel env payload] a by blast
  have c: "count_list (since st st') (ListenerCalled cb payload) = count_list ?fs cb"
    using f by (rule count_list_listener_calls)
  have once: "count_list (since st st') (ListenerCalled cb payload) = 1"
    if "listeners_distinct st \<and> cb \<in> set (subscribed st event) \<and> typeof cb = TFunction"
    using subscribed_distinct [of st event] that by (simp add: c count_list_distinct)
  show "\<exists>st'. emit_live fuel env subs event payload st = Some st'
           \<and> filter is_listener_call (since st st') =
                map (\<lambda>l. ListenerCalled l payload) (filter (\<lambda>l. typeof l = TFunction) (subscribed st event))
           \<and> (listeners_distinct st \<and> cb \<in> set (subscribed st event) \<and> typeof cb = TFunction \<longrightarrow>
                count_list (since st st') (ListenerCalled cb payload) = 1)"
    using s f once by blast
qed

theorem listener_fires_once_while_subscribed_witness:
  "never_subscribes example_subscriptions (VStr ''plugin:registered'')
   \<and> subscribed unsubscribing_state (VStr ''plugin:registered'') = [VFun 25, VFun 21]
   \<and> listeners_distinct unsubscribing_state
   \<and> (\<exists>st'. emit_live 2 example_env example_subscriptions (VStr ''plugin:registered'') VNull unsubscribing_state = Some st'
           \<and> count_list (since unsubscribing_state st') (ListenerCalled (VFun 25) VNull) \<le> 1
           \<and> ListenerCalled (VFun 30) VNull \<notin> set (since unsubscribing_state st'))
   \<and> map_option trace
        (emit_live 2 example_env example_subscriptions (VStr ''plugin:registered'') VNull unsubscribing_state) =
       Some [Emitted (VStr ''plugin:registered'') VNull, ListenerCalled (VFun 25) VNull]
   \<and> leaves_alone example_subscriptions (VStr ''plugin:unregistered'')
   \<and> subscribed subscribed_twice_state (VStr ''plugin:unregistered'') = [VFun 21]
   \<and> listeners_distinct subscribed_twice_state
   \<and> (\<exists>st'. emit_live 1 example_env example_subscriptions (VStr ''plugin:unregistered'') VNull subscribed_twice_state
             = Some st'
           \<and> count_list (since subscribed_twice_state st') (ListenerCalled (VFun 21) VNull) = 1)
   \<and> (\<exists>st'. emit_live 0 example_env example_subscriptions (VStr ''plugin:unregistered'') VNull
               (off (VStr ''plugin:unregistered'') (VFun 21) subscribed_twice_state) = Some st'
           \<and> ListenerCalled (VFun 21) VNull
                \<notin> set (since (off (VStr ''plugin:unregistered'') (VFun 21) subscribed_twice_state) st'))"
proof -
  let ?reg = "VStr ''plugin:registered''"
  let ?unreg = "VStr ''plugin:unregistered''"
  let ?A = unsubscribing_state
  let ?B = subscribed_twice_state
  let ?C = "off ?unreg (VFun 21) ?B"
  note t = listener_fires_once_while_subscribed [where env = example_env and subs = example_subscriptions
      and payload = VNull]
  have d0: "listeners_distinct (constructor (0::nat))"
    using t [where u = 0, THEN conjunct2, THEN conjunct2, THEN conjunct2, THEN conjunct2, THEN conjunct1] .
  have ns: "never_subscribes example_subscriptions ?reg"
    by (simp add: never_subscribes_def example_subscriptions_def)
  have ns': "never_subscribes example_subscriptions ?unreg"
    by (simp add: never_subscribes_def example_subscriptions_def)
  have la: "leaves_alone example_subscriptions ?unreg"
    by (simp add: leaves_alone_def example_subscriptions_def)
  have s0: "subscribed (constructor (0::nat)) ev = []" for ev
    by (simp add: subscribed_def constructor_def map_get_def)
  have sA: "subscribed ?A ?reg = [VFun 25, VFun 21]"
    by (simp add: unsubscribing_state_def subscribed_on set_add_def s0)
  have sB: "subscribed ?B ?unreg = [VFun 21]"
    by (simp add: subscribed_twice_state_def subscribed_on set_add_def s0)
  have sC: "subscribed ?C ?unreg = []"
    by (simp add: subscribed_off set_delete_def sB)
  have dA1: "listeners_distinct (on ?reg (VFun 25) (constructor (0::nat)))"
    using t [where st = "constructor 0" and event = ?reg and cb = "VFun 25", THEN conjunct2, THEN conjunct2, THEN conjunct2, THEN conjunct2, THEN conjunct2,
        THEN conjunct1, THEN mp, OF d0] by simp
  have dA: "listeners_distinct ?A"
    using t [where st = "on ?reg (VFun 25) (constructor 0)" and event = ?reg and cb = "VFun 21", THEN conjunct2, THEN conjunct2, THEN conjunct2, THEN conjunct2, THEN conjunct2,
        THEN conjunct1, THEN mp, OF dA1]
    by (simp add: unsubscribing_state_def)
  have dB1: "listeners_distinct (on ?unreg (VFun 21) (constructor (0::nat)))"
    using t [where st = "constructor 0" and event = ?unreg and cb = "VFun 21", THEN conjunct2, THEN conjunct2, THEN conjunct2, THEN conjunct2, THEN conjunct2,
        THEN conjunct1, THEN mp, OF d0] by simp
  have dB: "listeners_distinct ?B"
    using t [where st = "on ?unreg (VFun 21) (constructor 0)" and event = ?unreg and cb = "VFun 21", THEN conjunct2, THEN conjunct2, THEN conjunct2, THEN conjunct2, THEN conjunct2,
        THEN conjunct1, THEN mp, OF dB1]
    by (simp add: subscribed_twice_state_def)
  have hA: "never_subscribes example_subscriptions ?reg \<and> length (subscribed ?A ?reg) \<le> 2"
    using ns by (simp add: sA)
  have hB: "leaves_alone example_subscriptions ?unreg \<and> length (subscribed ?B ?unreg) \<le> 1"
    using la by (simp add: sB)
  have hC: "never_subscribes example_subscriptions ?unreg \<and> length (subscribed ?C ?unreg) \<le> 0"
    using ns' by (simp add: sC)
  have 1: "\<exists>st'. emit_live 2 example_env example_subscriptions ?reg VNull ?A = Some st'
           \<and> count_list (since ?A st') (ListenerCalled (VFun 25) VNull) \<le> 1
           \<and> ListenerCalled (VFun 30) VNull \<notin> set (since ?A st')"
  proof -
    obtain st' called where e: "emit_live 2 example_env example_subscriptions ?reg VNull ?A = Some st'"
      and c: "listeners_distinct ?A \<longrightarrow> count_list (since ?A st') (ListenerCalled (VFun 25) VNull) \<le> 1"
      and f: "filter is_listener_call (since ?A st') = map (\<lambda>l. ListenerCalled l VNull) called"
      and q: "subseq called (filter (\<lambda>l. typeof l = TFunction) (subscribed ?A ?reg))"
      using t [where st = ?A and event = ?reg and cb = "VFun 25" and fuel = 2, THEN conjunct2, THEN conjunct2, THEN conjunct2, THEN conjunct2,
        THEN conjunct2, THEN conjunct2, THEN conjunct1, THEN mp, OF hA] by blast
    have "VFun 30 \<notin> set called" using subseq_set [OF q] by (auto simp: sA)
    then have "ListenerCalled (VFun 30) VNull \<notin> set (filter is_listener_call (since ?A st'))"
      by (auto simp: f)
    then have "ListenerCalled (VFun 30) VNull \<notin> set (since ?A st')" by simp
    then show ?thesis using e c dA by blast
  qed
  have 2: "map_option trace (emit_live 2 example_env example_subscriptions ?reg VNull ?A) =
       Some [Emitted ?reg VNull, ListenerCalled (VFun 25) VNull]"
    by (simp add: unsubscribing_state_def constructor_def on_def off_def subscribed_def
        emit_live_def call_listener_live_def example_subscriptions_def example_env_def record_event_def
        map_has_def map_get_def set_add_def set_delete_def Let_def eval_nat_numeral)
  have 3: "\<exists>st'. emit_live 1 example_env example_subscriptions ?unreg VNull ?B = Some st'
           \<and> count_list (since ?B st') (ListenerCalled (VFun 21) VNull) = 1"
  proof -
    obtain st' where e: "emit_live 1 example_env example_subscriptions ?unreg VNull ?B = Some st'"
      and c: "listeners_distinct ?B \<and> VFun 21 \<in> set (subscribed ?B ?unreg) \<and> typeof (VFun 21) = TFunction \<longrightarrow>
                count_list (since ?B st') (ListenerCalled (VFun 21) VNull) = 1"
      using t [where st = ?B and event = ?unreg and cb = "VFun 21" and fuel = 1, THEN conjunct2, THEN conjunct2, THEN conjunct2, THEN conjunct2,
        THEN conjunct2, THEN conjunct2, THEN conjunct2, THEN mp, OF hB] by blast
    have "count_list (since ?B st') (ListenerCalled (VFun 21) VNull) = 1" using c dB by (simp add: sB)
    then show ?thesis using e by blast
  qed
  have 4: "\<exists>st'. emit_live 0 example_env example_subscriptions ?unreg VNull ?C = Some st'
           \<and> ListenerCalled (VFun 21) VNull \<notin> set (since ?C st')"
  proof -
    obtain st' where e: "emit_live 0 example_env example_subscriptions ?unreg VNull ?C = Some st'"
      and c: "VFun 21 \<notin> set (subscribed ?C ?unreg) \<longrightarrow> ListenerCalled (VFun 21) VNull \<notin> set (since ?C st')"
      using t [where st = ?C and event = ?unreg and cb = "VFun 21" and fuel = 0, THEN conjunct2, THEN conjunct2, THEN conjunct2, THEN conjunct2,
        THEN conjunct2, THEN conjunct2, THEN conjunct1, THEN mp, OF hC] by blast
    have "VFun 21 \<notin> set (subscribed ?C ?unreg)"
      using t [where st = ?B and event = ?unreg and cb = "VFun 21", THEN conjunct2, THEN conjunct2, THEN conjunct2,
          THEN conjunct1] .
    then show ?thesis using e c by blast
  qed
  show ?thesis using ns sA dA 1 2 la sB dB 3 4 by blast
qed

theorem listener_timing_counterexample:
  "VFun 23 \<notin> set (subscribed subscribing_state (VStr ''plugin:message''))
   \<and> map_option trace (emit_live 2 example_env example_subscriptions (VStr ''plugin:message'') VNull subscribing_state) =
       Some [Emitted (VStr ''plugin:message'') VNull, ListenerCalled (VFun 22) VNull, ListenerCalled (VFun 23) VNull]
   \<and> subscribed resubscribing_state (VStr ''plugin:message'') = [VFun 24]
   \<and> map_option trace (emit_live 2 example_env example_subscriptions (VStr ''plugin:message'') VNull resubscribing_state) =
       Some [Emitted (VStr ''plugin:message'') VNull, ListenerCalled (VFun 24) VNull, ListenerCalled (VFun 24) VNull]"
  by (simp add: subscribing_state_def resubscribing_state_def constructor_def on_def off_def subscribed_def
        emit_live_def call_listener_live_def example_subscriptions_def example_env_def record_event_def
        map_has_def map_get_def set_add_def set_delete_def Let_def eval_nat_numeral)

text \<open>
  Claim C10. \<^verbatim>\<open>broadcast\<close> resolves its context once: the argument, or one new empty object
  when the argument is \<^verbatim>\<open>undefined\<close>. Every middleware and handler call made during the
  broadcast carries the message and that same value (for an object, the same reference).
  When every middleware of the chain calls \<^verbatim>\<open>next\<close> once and the registered handlers are
  functions, the stage calls of the broadcast are, for each registered name, the chain and
  the handler of the name, each with that context (as a multiset: nothing is said about
  the order between targets). With no plugin registered the broadcast resolves with the
  empty array and calls nothing.
\<close>

theorem broadcast_shares_context:
  "fst (default_context ctx st) = (if ctx = VUndefined then VObj (BridgeRef (created st)) [] else ctx)
   \<and> list_all (carries message (fst (default_context ctx st))) (since st (snd (broadcast env message ctx st)))
   \<and> ((\<forall>m \<in> set (middlewares st). passes_on env m message (fst (default_context ctx st)))
        \<and> (\<forall>n \<in> set (map_keys (plugins st)). typeof (the_handler st n) = TFunction) \<longrightarrow>
        mset (filter is_stage_call (since st (snd (broadcast env message ctx st)))) =
          mset (concat (map (\<lambda>n. target_calls (middlewares st) message (fst (default_context ctx st)) (the_handler st n))
                          (map_keys (plugins st)))))
   \<and> (plugins st = [] \<longrightarrow>
        broadcast env message ctx st = (Inr [], snd (default_context ctx st))
        \<and> since st (snd (broadcast env message ctx st)) = [])"
proof (intro conjI impI)
  let ?c = "fst (default_context ctx st)"
  let ?st0 = "snd (default_context ctx st)"
  show "?c = (if ctx = VUndefined then VObj (BridgeRef (created st)) [] else ctx)"
    by (simp add: default_context_def new_object_def)
  obtain es where e: "since st (snd (broadcast env message ctx st)) =
        since ?st0 (snd (starts env (map_keys (plugins st)) message ?c ?st0)) @ es"
    and n: "list_all not_stage_call es"
    using broadcast_phases by blast
  have "grows (carries message ?c) ?st0 (snd (starts env (map_keys (plugins st)) message ?c ?st0))"
    using default_context_defined by (rule starts_carries)
  then have "list_all (carries message ?c) (since ?st0 (snd (starts env (map_keys (plugins st)) message ?c ?st0)))"
    unfolding since_def by (rule grows_since)
  moreover have "list_all (carries message ?c) es"
    using n by (auto simp: list_all_iff carries_not_stage_call)
  ultimately show "list_all (carries message ?c) (since st (snd (broadcast env message ctx st)))"
    by (simp add: e)
next
  let ?c = "fst (default_context ctx st)"
  let ?st0 = "snd (default_context ctx st)"
  assume a: "(\<forall>m \<in> set (middlewares st). passes_on env m message ?c)
        \<and> (\<forall>n \<in> set (map_keys (plugins st)). typeof (the_handler st n) = TFunction)"
  obtain es where e: "since st (snd (broadcast env message ctx st)) =
        since ?st0 (snd (starts env (map_keys (plugins st)) message ?c ?st0)) @ es"
    and n: "list_all not_stage_call es"
    using broadcast_phases by blast
  have "\<forall>n \<in> set (map_keys (plugins ?st0)). \<exists>h. map_get (plugins ?st0) n = Some (VFun h)"
    using a registered_function [of _ st] by simp
  moreover have "\<forall>m \<in> set (middlewares ?st0). passes_on env m message ?c" using a by simp
  ultimately have "since ?st0 (snd (starts env (map_keys (plugins ?st0)) message ?c ?st0)) =
       concat (map (\<lambda>n. target_calls (middlewares ?st0) message ?c (the_handler ?st0 n)) (map_keys (plugins ?st0)))"
    using default_context_defined by (intro starts_target_calls)
  moreover have "filter is_stage_call (concat (map (\<lambda>n. target_calls (middlewares st) message ?c (the_handler st n)) ns)) =
       concat (map (\<lambda>n. target_calls (middlewares st) message ?c (the_handler st n)) ns)" for ns
    by (induction ns) (simp_all add: target_calls_def stage_calls_map is_stage_call_def)
  moreover have "filter is_stage_call es = []"
    using n by (auto simp: list_all_iff not_stage_call_def intro!: filter_none)
  ultimately have "filter is_stage_call (since st (snd (broadcast env message ctx st))) =
          concat (map (\<lambda>n. target_calls (middlewares st) message ?c (the_handler st n)) (map_keys (plugins st)))"
    by (simp add: e the_handler_def)
  then show "mset (filter is_stage_call (since st (snd (broadcast env message ctx st)))) =
          mset (concat (map (\<lambda>n. target_calls (middlewares st) message ?c (the_handler st n)) (map_keys (plugins st))))"
    by simp
next
  assume "plugins st = []"
  then show "broadcast env message ctx st = (Inr [], snd (default_context ctx st))"
    by (simp add: broadcast_unfold map_keys_def)
next
  assume "plugins st = []"
  then show "since st (snd (broadcast env message ctx st)) = []"
    by (simp add: broadcast_unfold map_keys_def since_def)
qed

theorem broadcast_shares_context_witness:
  "passes_on example_env (VFun 10) (VStr ''hi'') (VObj (BridgeRef 0) [])
   \<and> middlewares (example_state [VFun 10]) = [VFun 10]
   \<and> map_keys (plugins (example_state [VFun 10])) = [VStr ''echo'', VStr ''fail'']
   \<and> the_handler (example_state [VFun 10]) (VStr ''echo'') = VFun 0
   \<and> the_handler (example_state [VFun 10]) (VStr ''fail'') = VFun 1
   \<and> mset (filter is_stage_call (since (example_state [VFun 10])
        (snd (broadcast example_env (VStr ''hi'') VUndefined (example_state [VFun 10]))))) =
       mset [MiddlewareCalled (VFun 10) (VStr ''hi'') (VObj (BridgeRef 0) []),
             HandlerCalled (VFun 0) (VStr ''hi'') (VObj (BridgeRef 0) []),
             MiddlewareCalled (VFun 10) (VStr ''hi'') (VObj (BridgeRef 0) []),
             HandlerCalled (VFun 1) (VStr ''hi'') (VObj (BridgeRef 0) [])]
   \<and> plugins idle_state = []
   \<and> broadcast example_env (VStr ''hi'') VUndefined idle_state = (Inr [], idle_state\<lparr>created := 1\<rparr>)"
proof -
  have c: "fst (default_context VUndefined st) = VObj (BridgeRef (created st)) []" for st :: "nat state"
    by (simp add: default_context_def new_object_def)
  have k: "middlewares (example_state [VFun 10]) = [VFun 10]
      \<and> map_keys (plugins (example_state [VFun 10])) = [VStr ''echo'', VStr ''fail'']
      \<and> the_handler (example_state [VFun 10]) (VStr ''echo'') = VFun 0
      \<and> the_handler (example_state [VFun 10]) (VStr ''fail'') = VFun 1
      \<and> created (example_state [VFun 10]) = 0"
    by (simp add: example_state_def map_keys_def the_handler_def map_get_def)
  have p: "passes_on example_env (VFun 10) (VStr ''hi'') (VObj (BridgeRef 0) [])"
    by (simp add: passes_on_def example_env_def)
  have a: "(\<forall>m \<in> set (middlewares (example_state [VFun 10])).
              passes_on example_env m (VStr ''hi'') (fst (default_context VUndefined (example_state [VFun 10]))))
        \<and> (\<forall>n \<in> set (map_keys (plugins (example_state [VFun 10]))).
              typeof (the_handler (example_state [VFun 10]) n) = TFunction)"
    using p by (simp add: c k)
  have e: "plugins idle_state = []" by (simp add: idle_state_def constructor_def)
  note t = broadcast_shares_context [where env = example_env and message = "VStr ''hi''" and ctx = VUndefined]
  from t [where st = "example_state [VFun 10]", THEN conjunct2, THEN conjunct2, THEN conjunct1, THEN mp, OF a]
  have 1: "mset (filter is_stage_call (since (example_state [VFun 10])
        (snd (broadcast example_env (VStr ''hi'') VUndefined (example_state [VFun 10]))))) =
       mset [MiddlewareCalled (VFun 10) (VStr ''hi'') (VObj (BridgeRef 0) []),
             HandlerCalled (VFun 0) (VStr ''hi'') (VObj (BridgeRef 0) []),
             MiddlewareCalled (VFun 10) (VStr ''hi'') (VObj (BridgeRef 0) []),
             HandlerCalled (VFun 1) (VStr ''hi'') (VObj (BridgeRef 0) [])]"
    by (simp add: c k target_calls_def)
  from t [where st = idle_state, THEN conjunct2, THEN conjunct2, THEN conjunct2, THEN mp, OF e]
  have 2: "broadcast example_env (VStr ''hi'') VUndefined idle_state = (Inr [], idle_state\<lparr>created := 1\<rparr>)"
    by (simp add: default_context_def new_object_def idle_state_def constructor_def)
  show ?thesis using p k e 1 2 by blast
qed

end
